theory Spec2Isabelle
  imports Main
begin

section \<open>C strings and the allocator\<close>

text \<open>
  A \<open>const char *\<close> argument is modelled by the bytes of the object it points to; the
  object is followed by a terminating NUL, which is not part of the list. The C string
  that a pointer denotes ends at the first NUL (\<open>c_str\<close>), and \<open>at m i\<close> is the byte
  \<open>m[i]\<close>, the terminator included. A \<open>size_t\<close> is an unbounded natural number; where
  the code keeps a length or an index in an \<open>int\<close>, the model says what becomes of it.
\<close>

definition NUL :: char where
  "NUL = CHR 0x00"

definition c_str :: "string \<Rightarrow> string" where
  "c_str m = takeWhile (\<lambda>c. c \<noteq> NUL) m"

definition strlen :: "string \<Rightarrow> nat" where
  "strlen m = length (c_str m)"

definition at :: "string \<Rightarrow> nat \<Rightarrow> char" where
  "at m i = (if i < length m then m ! i else NUL)"

fun index_of :: "char \<Rightarrow> string \<Rightarrow> nat option" where
  "index_of c [] = None"
| "index_of c (x # xs) = (if x = c then Some 0 else map_option Suc (index_of c xs))"

text \<open>
  \<open>strchr s c\<close> is the offset of the first \<open>c\<close> in the string \<open>s\<close>, or \<open>None\<close> for the
  null pointer. As in C the terminator belongs to the string that is searched, so
  looking for NUL finds it at offset \<open>strlen s\<close>.
\<close>

definition strchr :: "string \<Rightarrow> char \<Rightarrow> nat option" where
  "strchr s c = index_of c (c_str s @ [NUL])"

definition strcat :: "string \<Rightarrow> string \<Rightarrow> string" where
  "strcat d s = c_str d @ c_str s"

text \<open>
  Modelled from the spec: the allocation wrappers \<open>CALLOC\<close>, \<open>REALLOC_N\<close> and \<open>FREE\<close>
  come from memory.h, which is not among the sources. A request either yields a block
  of the requested size (zero-filled for \<open>CALLOC\<close>) or fails and leaves a null pointer;
  \<open>FREE\<close> releases the block and nulls the pointer. Which requests are granted is a
  parameter \<open>avail\<close> of every function that allocates; \<open>malloc\<close> and \<open>asprintf\<close> are
  treated alike.

  A function that returns a pointer yields \<open>Inr\<close> of the string it points to, or
  \<open>Inl Null\<close> for the null pointer; \<open>Inl Fault\<close> is an access outside the object a
  pointer belongs to (undefined behaviour in C).
\<close>

datatype error = Null | Fault

section \<open>pathjoin\<close>

text \<open>
  Modelled from the spec: \<open>SEP\<close> is a macro of internal.h, which is not among the
  sources; the spec gives the separator character as \<open>/\<close>.
\<close>

definition SEP :: char where
  "SEP = CHR ''/''"

text \<open>
  The variable arguments are the list of segments, \<open>nseg\<close> its length; \<open>None\<close> is a
  \<open>NULL\<close> segment. The result pairs the return value with \<open>*path\<close> on return.
\<close>

fun pathjoin :: "(nat \<Rightarrow> bool) \<Rightarrow> string option \<Rightarrow> string option list \<Rightarrow> int \<times> string option" where
  "pathjoin avail path [] = (0, path)"
| "pathjoin avail path (a # segs) =
     (let seg = (case a of None \<Rightarrow> ''()'' | Some s \<Rightarrow> s);
          len = strlen seg + 1
      in case path of
           Some p \<Rightarrow>
             (let len = len + strlen p + 1
              in if \<not> avail len then (- 1, None)
                 else
                   (let p = (if strlen p = 0 \<or> at p (strlen p - 1) \<noteq> SEP
                             then strcat p ''/'' else p);
                        seg = (if at seg 0 = SEP then drop 1 seg else seg)
                    in pathjoin avail (Some (strcat p seg)) segs))
         | None \<Rightarrow>
             if \<not> avail len then (- 1, None)
             else pathjoin avail (Some (c_str seg)) segs)"

section \<open>Escaping and unescaping of string literals\<close>

definition escape_chars :: string where
  "escape_chars = [CHR 0x22, CHR 0x07, CHR 0x08, CHR 0x09, CHR 0x0A, CHR 0x0B, CHR 0x0C,
                   CHR 0x0D, CHR 0x5C]"

definition escape_names :: string where
  "escape_names = [CHR 0x22, CHR ''a'', CHR ''b'', CHR ''t'', CHR ''n'', CHR ''v'', CHR ''f'',
                   CHR ''r'', CHR 0x5C]"

text \<open>
  A block of memory is the list of its bytes. \<open>store b e xs\<close> writes the bytes \<open>xs\<close>
  into the block \<open>b\<close> from offset \<open>e\<close> on; a write that leaves the block is a fault.
\<close>

definition store :: "string \<Rightarrow> nat \<Rightarrow> string \<Rightarrow> error + string" where
  "store b e xs =
     (if e + length xs \<le> length b then Inr (take e b @ xs @ drop (e + length xs) b)
      else Inl Fault)"

text \<open>
  An \<open>int\<close> has 32 bits. \<open>to_int n\<close> is the \<open>int\<close> that a \<open>size_t\<close> of the value \<open>n\<close> is
  converted to when it is assigned to one: its low 32 bits in two's complement. An
  \<open>int\<close> that is known not to be negative is kept as a natural number, and \<open>int_add\<close>
  is the sum of two such numbers; an overflow of it is undefined behaviour in C and a
  fault here.
\<close>

definition to_int :: "nat \<Rightarrow> int" where
  "to_int n = (if n mod 2 ^ 32 < 2 ^ 31 then int (n mod 2 ^ 32) else int (n mod 2 ^ 32) - 2 ^ 32)"

definition int_add :: "nat \<Rightarrow> nat \<Rightarrow> error + nat" where
  "int_add a b = (if a + b < 2 ^ 31 then Inr (a + b) else Inl Fault)"

text \<open>
  The test \<open>if (len < 0 || len > strlen(s)) len = strlen(s)\<close> of both functions, with
  the \<open>int\<close> that \<open>len\<close> is afterwards. The loops run while \<open>i < len\<close>, so not at all
  when \<open>len\<close> has become negative: their bound below is \<open>nat len\<close>.
\<close>

definition clamp_len :: "string \<Rightarrow> int \<Rightarrow> int" where
  "clamp_len s len = (if len < 0 \<or> len > int (strlen s) then to_int (strlen s) else len)"

text \<open>
  The first loop of \<open>unescape\<close>, which counts the bytes of the result in \<open>size\<close> (here
  \<open>sz\<close>, a \<open>size_t\<close>). After \<open>i += 1\<close> the index is at most \<open>len\<close>; the \<open>i++\<close> that
  follows it can overflow.
\<close>

function unescape_size :: "string \<Rightarrow> nat \<Rightarrow> nat \<Rightarrow> nat \<Rightarrow> error + nat" where
  "unescape_size s len i sz =
     (if i < len then
        (if at s i = CHR 0x5C \<and> strchr escape_names (at s (i + 1)) \<noteq> None
         then (case int_add (i + 1) 1 of
                 Inl x \<Rightarrow> Inl x
               | Inr i \<Rightarrow> unescape_size s len i (sz + 1))
         else unescape_size s len (i + 1) (sz + 1))
      else Inr sz)"
  by pat_completeness auto
termination
  by (relation "measure (\<lambda>(s, len, i, sz). len - i)") (auto simp: int_add_def split: if_splits)

text \<open>The second loop of \<open>unescape\<close>: \<open>result\<close> is the block, \<open>t\<close> the offset of the pointer t.\<close>

function unescape_fill :: "string \<Rightarrow> nat \<Rightarrow> nat \<Rightarrow> string \<Rightarrow> nat \<Rightarrow> error + string" where
  "unescape_fill s len i result t =
     (if i < len then
        (case (if at s i = CHR 0x5C then strchr escape_names (at s (i + 1)) else None) of
           Some n \<Rightarrow>
             (case store result t [at escape_chars n] of
                Inl x \<Rightarrow> Inl x
              | Inr result \<Rightarrow>
                  (case int_add (i + 1) 1 of
                     Inl x \<Rightarrow> Inl x
                   | Inr i \<Rightarrow> unescape_fill s len i result (t + 1)))
         | None \<Rightarrow>
             (case store result t [at s i] of
                Inl x \<Rightarrow> Inl x
              | Inr result \<Rightarrow> unescape_fill s len (i + 1) result (t + 1)))
      else Inr result)"
  by pat_completeness auto
termination
  by (relation "measure (\<lambda>(s, len, i, result, t). len - i)") (auto simp: int_add_def split: if_splits)

text \<open>
  \<open>unescape\<close>. The result of \<open>CALLOC\<close> is not tested: when the request fails, the
  first store of the second loop goes through the null pointer, and with no byte to
  store the null pointer is returned.
\<close>

definition unescape :: "(nat \<Rightarrow> bool) \<Rightarrow> string \<Rightarrow> int \<Rightarrow> error + string" where
  "unescape avail s len =
     (let len = nat (clamp_len s len)
      in case unescape_size s len 0 0 of
           Inl x \<Rightarrow> Inl x
         | Inr sz \<Rightarrow>
             if avail (sz + 1) then
               (case unescape_fill s len 0 (replicate (sz + 1) NUL) 0 of
                  Inl x \<Rightarrow> Inl x
                | Inr result \<Rightarrow> Inr (c_str result))
             else if len = 0 then Inl Null else Inl Fault)"

text \<open>\<open>isprint\<close> of the C library, in the C locale: the bytes 0x20 to 0x7E.\<close>

definition isprint :: "char \<Rightarrow> bool" where
  "isprint c = (0x20 \<le> (of_char c :: nat) \<and> (of_char c :: nat) \<le> 0x7E)"

text \<open>
  The first loop of \<open>escape\<close>, which adds up the length of the result in the \<open>int\<close>
  \<open>len\<close>.
\<close>

function escape_len :: "string \<Rightarrow> nat \<Rightarrow> nat \<Rightarrow> nat \<Rightarrow> error + nat" where
  "escape_len text cnt i len =
     (if i < cnt then
        (case (if at text i \<noteq> NUL \<and> strchr escape_chars (at text i) \<noteq> None
               then int_add len 2
               else if \<not> isprint (at text i)
               then int_add len 4
               else int_add len 1) of
           Inl x \<Rightarrow> Inl x
         | Inr len \<Rightarrow> escape_len text cnt (i + 1) len)
      else Inr len)"
  by pat_completeness auto
termination
  by (relation "measure (\<lambda>(text, cnt, i, len). cnt - i)") auto

text \<open>
  \<open>sprintf(e, "\\%03o", text[i])\<close>. The argument \<open>text[i]\<close> is a plain \<open>char\<close>, promoted
  to \<open>int\<close> and printed by \<open>%o\<close> as an \<open>unsigned int\<close> of 32 bits. Whether plain
  \<open>char\<close> is signed is left to the platform by the C standard (it is on x86, it is not
  on ARM Linux), so it is a parameter \<open>signed_char\<close> of the model: where it holds, a
  byte from 0x80 on is a negative number. \<open>sprintf_octal v\<close> is what \<open>sprintf\<close> stores
  for the value \<open>v\<close>: the backslash, at least three octal digits, and the terminator.
\<close>

definition octal_arg :: "bool \<Rightarrow> char \<Rightarrow> nat" where
  "octal_arg signed_char c =
     (if signed_char \<and> 128 \<le> (of_char c :: nat) then 2 ^ 32 - 256 + of_char c else of_char c)"

fun octal :: "nat \<Rightarrow> string" where
  "octal n = (if n < 8 then [''01234567'' ! n] else octal (n div 8) @ [''01234567'' ! (n mod 8)])"

definition sprintf_octal :: "nat \<Rightarrow> string" where
  "sprintf_octal v =
     CHR 0x5C # replicate (3 - length (octal v)) (CHR ''0'') @ octal v @ [NUL]"

text \<open>The second loop of \<open>escape\<close>: \<open>esc\<close> is the block, \<open>e\<close> the offset of the pointer e.\<close>

function escape_fill :: "bool \<Rightarrow> string \<Rightarrow> nat \<Rightarrow> nat \<Rightarrow> string \<Rightarrow> nat \<Rightarrow> error + string" where
  "escape_fill signed_char text cnt i esc e =
     (if i < cnt then
        (case (if at text i \<noteq> NUL then strchr escape_chars (at text i) else None) of
           Some p \<Rightarrow>
             (case store esc e [CHR 0x5C] of
                Inl x \<Rightarrow> Inl x
              | Inr esc \<Rightarrow>
                  (case store esc (e + 1) [at escape_names p] of
                     Inl x \<Rightarrow> Inl x
                   | Inr esc \<Rightarrow> escape_fill signed_char text cnt (i + 1) esc (e + 1 + 1)))
         | None \<Rightarrow>
             if \<not> isprint (at text i) then
               (case store esc e (sprintf_octal (octal_arg signed_char (at text i))) of
                  Inl x \<Rightarrow> Inl x
                | Inr esc \<Rightarrow> escape_fill signed_char text cnt (i + 1) esc (e + 4))
             else
               (case store esc e [at text i] of
                  Inl x \<Rightarrow> Inl x
                | Inr esc \<Rightarrow> escape_fill signed_char text cnt (i + 1) esc (e + 1)))
      else Inr esc)"
  by pat_completeness auto
termination
  by (relation "measure (\<lambda>(signed_char, text, cnt, i, esc, e). cnt - i)") auto

text \<open>
  \<open>escape\<close>. As in \<open>unescape\<close> the result of \<open>CALLOC\<close> is not tested. The request is
  for \<open>len + 1\<close> bytes, a sum of two \<open>int\<close>.
\<close>

definition escape :: "bool \<Rightarrow> (nat \<Rightarrow> bool) \<Rightarrow> string \<Rightarrow> int \<Rightarrow> error + string" where
  "escape signed_char avail text cnt =
     (let cnt = nat (clamp_len text cnt)
      in case escape_len text cnt 0 0 of
           Inl x \<Rightarrow> Inl x
         | Inr len \<Rightarrow>
             (case int_add len 1 of
                Inl x \<Rightarrow> Inl x
              | Inr n \<Rightarrow>
                  if avail n then
                    (case escape_fill signed_char text cnt 0 (replicate n NUL) 0 of
                       Inl x \<Rightarrow> Inl x
                     | Inr esc \<Rightarrow> Inr (c_str esc))
                  else if cnt = 0 then Inl Null else Inl Fault))"

text \<open>
  The escaped form of one byte in the spec's words: a byte of the control-escape set
  becomes a backslash and its letter, any other printable byte stays as it is, and any
  other byte becomes a backslash and three octal digits. The loops above are compared
  with it below.
\<close>

definition octal3 :: "nat \<Rightarrow> string" where
  "octal3 n = [''01234567'' ! (n div 64), ''01234567'' ! (n div 8 mod 8), ''01234567'' ! (n mod 8)]"

definition spec_escape_byte :: "char \<Rightarrow> string" where
  "spec_escape_byte c =
     (case index_of c escape_chars of
        Some p \<Rightarrow> [CHR 0x5C, escape_names ! p]
      | None \<Rightarrow> if isprint c then [c] else CHR 0x5C # octal3 (of_char c))"

text \<open>The bytes for which \<open>%03o\<close> is given a value below 256.\<close>

definition three_digits :: "bool \<Rightarrow> char \<Rightarrow> bool" where
  "three_digits signed_char c = (if signed_char then (of_char c :: nat) < 128 else True)"

text \<open>The domain of the round trip: the control-escape characters and printable ASCII.\<close>

definition literal :: "char \<Rightarrow> bool" where
  "literal c = (if c \<in> set escape_chars then True else isprint c)"

section \<open>format_pos\<close>

text \<open>\<open>pad_left n s\<close> is what \<open>%*s\<close> prints for the width \<open>n\<close>, \<open>pad_right n s\<close> what \<open>%-*s\<close> prints.\<close>

definition pad_left :: "nat \<Rightarrow> string \<Rightarrow> string" where
  "pad_left n s = replicate (n - length s) (CHR '' '') @ s"

definition pad_right :: "nat \<Rightarrow> string \<Rightarrow> string" where
  "pad_right n s = s @ replicate (n - length s) (CHR '' '')"

definition window :: int where
  "window = 28"

text \<open>
  \<open>text\<close> is the object that the pointer belongs to, so \<open>text + pos\<close> lies in it for
  \<open>pos\<close> from 0 to its length (where the terminator is); any other \<open>pos\<close> makes
  \<open>escape\<close> read outside the object.
\<close>

definition format_pos :: "bool \<Rightarrow> (nat \<Rightarrow> bool) \<Rightarrow> string \<Rightarrow> int \<Rightarrow> error + string" where
  "format_pos signed_char avail text pos =
     (let before = (if pos > window then window else pos)
      in if pos < 0 \<or> int (length text) < pos then Inl Fault
         else
           (case escape signed_char avail (drop (nat (pos - before)) text) before of
              Inl x \<Rightarrow> Inl x
            | Inr left \<Rightarrow>
                (case escape signed_char avail (drop (nat pos) text) window of
                   Inl x \<Rightarrow> Inl x
                 | Inr right \<Rightarrow>
                     (let llen = int (strlen left);
                          rlen = int (strlen right);
                          buf =
                            (if llen < window \<and> rlen < window then
                               pad_left (nat (window - llen)) ''<'' @ left @ ''|=|'' @ right
                                 @ pad_right (nat (window - rlen)) ''>'' @ [CHR 0x0A]
                             else if int (strlen left) < window then
                               pad_left (nat (window - llen)) ''<'' @ left @ ''|=|'' @ right
                                 @ ''>'' @ [CHR 0x0A]
                             else if int (strlen right) < window then
                               ''<'' @ left @ ''|=|'' @ right
                                 @ pad_right (nat (window - rlen)) ''>'' @ [CHR 0x0A]
                             else ''<'' @ left @ ''|=|'' @ right @ ''>'' @ [CHR 0x0A])
                      in if avail (length buf + 1) then Inr buf else Inl Null))))"

section \<open>Reading a file\<close>

text \<open>
  A stream holds the bytes it has still to deliver. A read error, if there is one, strikes
  after \<open>fail_after\<close> further bytes; \<open>error_ind\<close> is the error indicator that \<open>ferror\<close>
  tests. \<open>fread n\<close> delivers \<open>n\<close> bytes, or fewer at the end of the stream or at the
  error, which then sets the indicator.
\<close>

record stream =
  pending :: string
  fail_after :: "nat option"
  error_ind :: bool

definition deliverable :: "stream \<Rightarrow> nat" where
  "deliverable st =
     (case fail_after st of None \<Rightarrow> length (pending st) | Some k \<Rightarrow> min k (length (pending st)))"

definition fails :: "stream \<Rightarrow> bool" where
  "fails st = (case fail_after st of None \<Rightarrow> False | Some k \<Rightarrow> k < length (pending st))"

definition fread :: "nat \<Rightarrow> stream \<Rightarrow> string \<times> stream" where
  "fread n st =
     (let got = take (min n (deliverable st)) (pending st)
      in (got,
          st\<lparr>pending := drop (length got) (pending st),
             fail_after := map_option (\<lambda>k. k - length got) (fail_after st),
             error_ind := (if deliverable st < n \<and> fails st then True else error_ind st)\<rparr>))"

definition MAX_READ_LEN :: nat where
  "MAX_READ_LEN = 32 * 1024 * 1024"

text \<open>
  The loop of \<open>fread_file_lim\<close>. \<open>buf\<close> holds the \<open>size\<close> bytes read so far, \<open>alloc\<close> is
  the size of its block. \<open>BUFSIZ\<close> is the constant of stdio.h, a parameter here. The
  result is the content of the buffer returned (its length is what is stored in
  \<open>*length\<close>), or \<open>None\<close> for the null pointer, and the stream as it is left.
\<close>

function fread_file_loop ::
  "nat \<Rightarrow> (nat \<Rightarrow> bool) \<Rightarrow> stream \<Rightarrow> nat \<Rightarrow> string \<Rightarrow> nat \<Rightarrow> string option \<times> stream" where
  "fread_file_loop BUFSIZ avail stream max_len buf alloc =
     (let sz = length buf;
          grow = (sz + BUFSIZ + 1 > alloc);
          alloc = (if grow
                   then (if alloc + alloc div 2 < sz + BUFSIZ + 1 then sz + BUFSIZ + 1
                         else alloc + alloc div 2)
                   else alloc)
      in if grow \<and> \<not> avail alloc then (None, stream)
         else
           (let requested = min (if sz < max_len then max_len - sz else 0) (alloc - sz - 1);
                r = fread requested stream;
                count = length (fst r)
            in if count \<noteq> requested \<or> requested = 0 then
                 (if error_ind (snd r) then (None, snd r) else (Some (buf @ fst r), snd r))
               else fread_file_loop BUFSIZ avail (snd r) max_len (buf @ fst r) alloc))"
  by pat_completeness auto
termination
proof (relation "measure (\<lambda>(BUFSIZ, avail, stream, max_len, buf, alloc). length (pending stream))")
  show "wf (measure (\<lambda>(BUFSIZ, avail, stream, max_len, buf, alloc). length (pending stream)))"
    by simp
next
  fix BUFSIZ :: nat and avail :: "nat \<Rightarrow> bool" and stream :: stream and max_len :: nat
    and buf :: string and alloc sz :: nat and grow :: bool and alloca requested :: nat
    and r :: "string \<times> stream" and count :: nat
  assume "r = fread requested stream" and "count = length (fst r)"
    and "\<not> (count \<noteq> requested \<or> requested = 0)"
  then have "length (take (min requested (deliverable stream)) (pending stream)) = requested"
    and "0 < requested" and "pending (snd r) = drop requested (pending stream)"
    by (auto simp: fread_def Let_def)
  then have "length (pending (snd r)) < length (pending stream)"
    by auto
  then show "((BUFSIZ, avail, snd r, max_len, buf @ fst r, alloca),
              (BUFSIZ, avail, stream, max_len, buf, alloc))
             \<in> measure (\<lambda>(BUFSIZ, avail, stream, max_len, buf, alloc). length (pending stream))"
    by simp
qed

definition fread_file_lim ::
  "nat \<Rightarrow> (nat \<Rightarrow> bool) \<Rightarrow> stream \<Rightarrow> nat \<Rightarrow> string option \<times> stream" where
  "fread_file_lim BUFSIZ avail stream max_len = fread_file_loop BUFSIZ avail stream max_len [] 0"

text \<open>
  \<open>read_file\<close>. \<open>fopen\<close> gives the stream of a path, or \<open>None\<close> when the file cannot
  be opened. The test \<open>(int) len == len\<close> holds for the lengths below \<open>2 ^ 31\<close>.
\<close>

definition read_file ::
  "nat \<Rightarrow> (nat \<Rightarrow> bool) \<Rightarrow> (string \<Rightarrow> stream option) \<Rightarrow> string \<Rightarrow> string option" where
  "read_file BUFSIZ avail fopen path =
     (case fopen path of
        None \<Rightarrow> None
      | Some fp \<Rightarrow>
          (case fst (fread_file_lim BUFSIZ avail fp MAX_READ_LEN) of
             None \<Rightarrow> None
           | Some result \<Rightarrow>
               if length result \<le> MAX_READ_LEN \<and> length result < 2 ^ 31 then Some result
               else None))"

section \<open>Properties of escape and unescape\<close>


declare escape_fill.simps [simp del] escape_len.simps [simp del]
  unescape_fill.simps [simp del] unescape_size.simps [simp del] octal.simps [simp del]

lemma c_str_no_NUL: "NUL \<notin> set s \<Longrightarrow> c_str s = s"
  by (auto simp: c_str_def)

lemma literal_iff: "literal c \<longleftrightarrow> c \<in> set escape_chars \<or> isprint c"
  by (simp add: literal_def)

lemma three_digits_iff: "three_digits signed_char c \<longleftrightarrow> (signed_char \<longrightarrow> (of_char c :: nat) < 128)"
  by (simp add: three_digits_def)

lemma index_of_Some: "index_of c xs = Some p \<Longrightarrow> p < length xs \<and> xs ! p = c"
  by (induction xs arbitrary: p) (auto split: if_splits)

lemma index_of_None: "index_of c xs = None \<longleftrightarrow> c \<notin> set xs"
  by (induction xs) auto

lemma index_of_snoc:
  "index_of c (xs @ [d]) =
     (case index_of c xs of Some p \<Rightarrow> Some p | None \<Rightarrow> if d = c then Some (length xs) else None)"
  by (induction xs) (auto split: option.splits)

lemma replicate_2: "replicate 2 x = [x, x]"
  by (simp add: numeral_2_eq_2)

lemma c_str_escape_chars: "c_str escape_chars = escape_chars"
  by (simp add: c_str_def escape_chars_def NUL_def)

lemma c_str_escape_names: "c_str escape_names = escape_names"
  by (simp add: c_str_def escape_names_def NUL_def)

lemma NUL_escape_chars: "index_of NUL escape_chars = None"
  by (simp add: escape_chars_def NUL_def)

lemma strchr_escape_chars:
  "(if c \<noteq> NUL then strchr escape_chars c else None) = index_of c escape_chars"
  by (auto simp: strchr_def c_str_escape_chars index_of_snoc NUL_escape_chars split: option.splits)

lemma octal_small: "n < 8 \<Longrightarrow> octal n = [''01234567'' ! n]"
  by (simp add: octal.simps)

lemma octal_step: "8 \<le> n \<Longrightarrow> octal n = octal (n div 8) @ [''01234567'' ! (n mod 8)]"
  by (subst octal.simps) simp

lemma sprintf_octal_byte:
  assumes "n < 256"
  shows "sprintf_octal n = CHR 0x5C # octal3 n @ [NUL]"
proof -
  consider "n < 8" | "8 \<le> n" "n < 64" | "64 \<le> n" by linarith
  then show ?thesis
  proof cases
    case 1
    then show ?thesis by (simp add: sprintf_octal_def octal_small octal3_def replicate_2)
  next
    case 2
    then have "n div 8 < 8" by simp
    with 2 show ?thesis
      by (simp add: sprintf_octal_def octal_step octal_small octal3_def replicate_2)
  next
    case 3
    then have a: "8 \<le> n" "8 \<le> n div 8" by auto
    have b: "n div 8 div 8 < 8" using assms by simp
    have c: "n div 8 div 8 = n div 64" by (simp add: div_mult2_eq)
    show ?thesis using a b c
      by (simp add: sprintf_octal_def octal_step octal_small octal3_def replicate_2)
  qed
qed

lemma strchr_escape_chars_iff:
  "(c \<noteq> NUL \<and> strchr escape_chars c \<noteq> None) \<longleftrightarrow> index_of c escape_chars \<noteq> None"
  using strchr_escape_chars [of c] by (auto split: if_splits)

lemma length_spec_escape_byte:
  "length (spec_escape_byte c) =
     (if index_of c escape_chars \<noteq> None then 2 else if \<not> isprint c then 4 else 1)"
  by (auto simp: spec_escape_byte_def octal3_def split: option.splits)

lemma int_add_Inr: "a + b < 2 ^ 31 \<Longrightarrow> int_add a b = Inr (a + b)"
  by (simp add: int_add_def)

lemma int_add_Inl: "\<not> a + b < 2 ^ 31 \<Longrightarrow> int_add a b = Inl Fault"
  by (simp add: int_add_def)

text \<open>The first loop adds up the length of the escaped form, unless that overflows.\<close>

lemma escape_len_eq:
  assumes "len < 2 ^ 31"
  shows "escape_len text cnt i len =
     (if len + length (concat (map (spec_escape_byte \<circ> at text) [i..<cnt])) < 2 ^ 31
      then Inr (len + length (concat (map (spec_escape_byte \<circ> at text) [i..<cnt])))
      else Inl Fault)"
  using assms
proof (induction "cnt - i" arbitrary: i len)
  case 0
  then show ?case by (subst escape_len.simps) simp
next
  case (Suc n)
  then have lt: "i < cnt" and n: "n = cnt - Suc i" by auto
  note IH = Suc.hyps(1) [OF n]
  let ?c = "at text i"
  let ?d = "length (spec_escape_byte ?c)"
  have upt: "[i..<cnt] = i # [Suc i..<cnt]" using lt by (simp add: upt_conv_Cons)
  have step: "(if ?c \<noteq> NUL \<and> strchr escape_chars ?c \<noteq> None then int_add len 2
               else if \<not> isprint ?c then int_add len 4 else int_add len 1) = int_add len ?d"
    using strchr_escape_chars_iff [of ?c] by (auto simp: length_spec_escape_byte)
  have one: "escape_len text cnt i len =
             (case int_add len ?d of Inl x \<Rightarrow> Inl x | Inr len \<Rightarrow> escape_len text cnt (Suc i) len)"
    using lt by (subst escape_len.simps) (simp only: step if_True Suc_eq_plus1)
  show ?case
  proof (cases "len + ?d < 2 ^ 31")
    case True
    then show ?thesis
      by (simp add: one int_add_Inr IH [OF True] upt add.assoc)
  next
    case False
    then show ?thesis
      by (simp add: one int_add_Inl upt)
  qed
qed

lemma store_append:
  "length xs \<le> k \<Longrightarrow>
   store (out @ replicate k NUL) (length out) xs = Inr (out @ xs @ replicate (k - length xs) NUL)"
  by (simp add: store_def)

lemma store_append_NUL:
  assumes "length xs < k"
  shows "store (out @ replicate k NUL) (length out) (xs @ [NUL]) = Inr (out @ xs @ replicate (k - length xs) NUL)"
proof -
  have "replicate (k - length xs) NUL = NUL # replicate (k - length (xs @ [NUL])) NUL"
    using assms by (cases "k - length xs") auto
  moreover have "length (xs @ [NUL]) \<le> k" using assms by simp
  ultimately show ?thesis using store_append [of "xs @ [NUL]" k out] by simp
qed

lemma octal_arg_plain: "three_digits signed_char c \<Longrightarrow> octal_arg signed_char c = of_char c"
  by (auto simp: three_digits_iff octal_arg_def)

lemma escape_fill_ok:
  assumes "\<forall>j. i \<le> j \<and> j < cnt \<longrightarrow> three_digits signed_char (at text j)"
    and "length (concat (map (spec_escape_byte \<circ> at text) [i..<cnt])) < k"
  shows "escape_fill signed_char text cnt i (out @ replicate k NUL) (length out) =
         Inr (out @ concat (map (spec_escape_byte \<circ> at text) [i..<cnt])
                  @ replicate (k - length (concat (map (spec_escape_byte \<circ> at text) [i..<cnt]))) NUL)"
  using assms
proof (induction "cnt - i" arbitrary: i out k)
  case 0
  then show ?case by (subst escape_fill.simps) simp
next
  case (Suc n)
  then have lt: "i < cnt" and n: "n = cnt - (i + 1)" by auto
  let ?c = "at text i"
  let ?rest = "concat (map (spec_escape_byte \<circ> at text) [i + 1..<cnt])"
  have upt: "[i..<cnt] = i # [i + 1..<cnt]" using lt by (simp add: upt_conv_Cons)
  have good: "\<forall>j. i + 1 \<le> j \<and> j < cnt \<longrightarrow> three_digits signed_char (at text j)"
    using Suc.prems(1) by auto
  have k: "length (spec_escape_byte ?c) + length ?rest < k"
    using Suc.prems(2) by (simp add: upt)
  have step: "escape_fill signed_char text cnt (i + 1)
                ((out @ spec_escape_byte ?c) @ replicate (k - length (spec_escape_byte ?c)) NUL)
                (length (out @ spec_escape_byte ?c)) =
              Inr ((out @ spec_escape_byte ?c) @ ?rest
                   @ replicate (k - length (spec_escape_byte ?c) - length ?rest) NUL)"
    using k by (intro Suc.hyps(1) [OF n good]) simp
  have one: "escape_fill signed_char text cnt i (out @ replicate k NUL) (length out) =
             escape_fill signed_char text cnt (i + 1)
                ((out @ spec_escape_byte ?c) @ replicate (k - length (spec_escape_byte ?c)) NUL)
                (length (out @ spec_escape_byte ?c))"
  proof (cases "index_of ?c escape_chars")
    case (Some p)
    then have p: "p < length escape_chars" by (simp add: index_of_Some)
    then have nm: "at escape_names p = escape_names ! p"
      by (simp add: at_def escape_names_def escape_chars_def)
    have sb: "spec_escape_byte ?c = [CHR 0x5C, escape_names ! p]"
      using Some by (simp add: spec_escape_byte_def)
    have k2: "2 \<le> k" using k sb by simp
    have s1: "store (out @ replicate k NUL) (length out) [CHR 0x5C] =
              Inr ((out @ [CHR 0x5C]) @ replicate (k - 1) NUL)"
      using k2 store_append [of "[CHR 0x5C]" k out] by simp
    have s2: "store ((out @ [CHR 0x5C]) @ replicate (k - 1) NUL) (length out + 1) [escape_names ! p] =
              Inr ((out @ [CHR 0x5C, escape_names ! p]) @ replicate (k - 2) NUL)"
      using k2 store_append [of "[escape_names ! p]" "k - 1" "out @ [CHR 0x5C]"] by simp
    show ?thesis
      using lt Some s1 s2
      by (subst escape_fill.simps) (simp add: strchr_escape_chars nm sb numeral_2_eq_2)
  next
    case None
    show ?thesis
    proof (cases "isprint ?c")
      case True
      have sb: "spec_escape_byte ?c = [?c]"
        using None True by (simp add: spec_escape_byte_def)
      have s1: "store (out @ replicate k NUL) (length out) [?c] =
                Inr ((out @ [?c]) @ replicate (k - 1) NUL)"
        using k sb store_append [of "[?c]" k out] by simp
      show ?thesis
        using lt None True s1
        by (subst escape_fill.simps) (simp add: strchr_escape_chars sb)
    next
      case False
      have sb: "spec_escape_byte ?c = CHR 0x5C # octal3 (of_char ?c)"
        using None False by (simp add: spec_escape_byte_def)
      have td: "three_digits signed_char ?c" using Suc.prems(1) lt by simp
      have sp: "sprintf_octal (octal_arg signed_char ?c) = (CHR 0x5C # octal3 (of_char ?c)) @ [NUL]"
        using td by (simp add: octal_arg_plain sprintf_octal_byte)
      have len4: "length (CHR 0x5C # octal3 (of_char ?c)) = 4" by (simp add: octal3_def)
      have s1: "store (out @ replicate k NUL) (length out) (sprintf_octal (octal_arg signed_char ?c)) =
                Inr ((out @ CHR 0x5C # octal3 (of_char ?c)) @ replicate (k - 4) NUL)"
        using k sb len4 store_append_NUL [of "CHR 0x5C # octal3 (of_char ?c)" k out]
        by (simp add: sp)
      show ?thesis
        using lt None False s1 len4
        by (subst escape_fill.simps) (simp add: strchr_escape_chars sb)
    qed
  qed
  have "escape_fill signed_char text cnt i (out @ replicate k NUL) (length out) =
        Inr ((out @ spec_escape_byte ?c) @ ?rest
             @ replicate (k - length (spec_escape_byte ?c) - length ?rest) NUL)"
    by (simp only: one step)
  also have "\<dots> = Inr (out @ concat (map (spec_escape_byte \<circ> at text) [i..<cnt])
                  @ replicate (k - length (concat (map (spec_escape_byte \<circ> at text) [i..<cnt]))) NUL)"
    by (simp add: upt)
  finally show ?case .
qed

lemma digit_not_NUL: "d < 8 \<Longrightarrow> ''01234567'' ! d \<noteq> NUL"
proof -
  assume "d < 8"
  then have "''01234567'' ! d \<in> set ''01234567''" by (intro nth_mem) simp
  then show ?thesis by (auto simp: NUL_def)
qed

lemma NUL_notin_escape_names: "NUL \<notin> set escape_names"
  by (simp add: escape_names_def NUL_def)

lemma NUL_notin_escape_chars: "NUL \<notin> set escape_chars"
  by (simp add: escape_chars_def NUL_def)

lemma length_escape_tables: "length escape_chars = 9" "length escape_names = 9"
  by (simp_all add: escape_chars_def escape_names_def)

lemma not_isprint_NUL: "\<not> isprint NUL"
  by (simp add: isprint_def NUL_def)

lemma NUL_notin_octal3:
  assumes "n < 512"
  shows "NUL \<notin> set (octal3 n)"
proof -
  have "n div 64 < 8" by (rule less_mult_imp_div_less) (use assms in linarith)
  then show ?thesis using digit_not_NUL [of "n div 64"] digit_not_NUL [of "n div 8 mod 8"]
      digit_not_NUL [of "n mod 8"]
    by (auto simp: octal3_def)
qed

lemma NUL_notin_spec_escape_byte: "NUL \<notin> set (spec_escape_byte c)"
proof (cases "index_of c escape_chars")
  case (Some p)
  then have "p < length escape_names"
    using index_of_Some [of c escape_chars p] by (simp add: length_escape_tables)
  then have "escape_names ! p \<in> set escape_names" by (rule nth_mem)
  then have "escape_names ! p \<noteq> NUL" using NUL_notin_escape_names by metis
  moreover have "CHR 0x5C \<noteq> NUL" by (simp add: NUL_def)
  ultimately show ?thesis using Some by (simp add: spec_escape_byte_def)
next
  case None
  show ?thesis
  proof (cases "isprint c")
    case True
    then have "c \<noteq> NUL" using not_isprint_NUL by auto
    then show ?thesis using None True by (simp add: spec_escape_byte_def)
  next
    case False
    have "(of_char c :: nat) < 256" by simp
    then have "(of_char c :: nat) < 512" by linarith
    then have "NUL \<notin> set (octal3 (of_char c))" by (rule NUL_notin_octal3)
    moreover have "CHR 0x5C \<noteq> NUL" by (simp add: NUL_def)
    ultimately show ?thesis using None False by (simp add: spec_escape_byte_def)
  qed
qed

lemma c_str_append_NUL:
  assumes "NUL \<notin> set xs"
  shows "c_str (xs @ replicate k NUL) = xs"
proof -
  have a: "\<And>x. x \<in> set xs \<Longrightarrow> x \<noteq> NUL" using assms by auto
  have "takeWhile (\<lambda>c. c \<noteq> NUL) (xs @ replicate k NUL)
          = xs @ takeWhile (\<lambda>c. c \<noteq> NUL) (replicate k NUL)"
    using a by (rule takeWhile_append2)
  moreover have "takeWhile (\<lambda>c. c \<noteq> NUL) (replicate k NUL) = []"
    by (cases k) simp_all
  ultimately show ?thesis by (simp add: c_str_def)
qed

lemma c_str_prefix: "\<exists>ys. m = c_str m @ ys"
  by (metis c_str_def takeWhile_dropWhile_id)

lemma NUL_notin_c_str: "NUL \<notin> set (c_str m)"
  by (metis c_str_def set_takeWhileD)

lemma strlen_le: "strlen m \<le> length m"
  by (simp add: strlen_def c_str_def length_takeWhile_le)

lemma to_int_le: "to_int n \<le> int n"
proof -
  have a: "int (n mod 2 ^ 32) \<le> int n" by simp
  have b: "int (n mod 2 ^ 32) - 2 ^ 32 \<le> int (n mod 2 ^ 32)" by simp
  show ?thesis
  proof (cases "n mod 2 ^ 32 < 2 ^ 31")
    case True
    then show ?thesis using a by (simp only: to_int_def if_True)
  next
    case False
    then show ?thesis using a b by (simp only: to_int_def if_False)
  qed
qed

lemma to_int_small: "n < 2 ^ 31 \<Longrightarrow> to_int n = int n"
  by (simp add: to_int_def)

lemma clamp_len_le: "nat (clamp_len s len) \<le> strlen s"
  using to_int_le [of "strlen s"] by (auto simp: clamp_len_def)

lemma take_clamp_c_str:
  "take (nat (clamp_len s len)) s = take (nat (clamp_len s len)) (c_str s)"
proof -
  obtain ys where "s = c_str s @ ys" using c_str_prefix by blast
  then have "take (nat (clamp_len s len)) s = take (nat (clamp_len s len)) (c_str s @ ys)" by simp
  also have "\<dots> = take (nat (clamp_len s len)) (c_str s)"
    using clamp_len_le [of s len] by (simp add: strlen_def)
  finally show ?thesis .
qed

lemma NUL_notin_take_clamp: "NUL \<notin> set (take (nat (clamp_len s len)) s)"
  by (metis NUL_notin_c_str in_set_takeD take_clamp_c_str)

lemma map_at_upt: "n \<le> length m \<Longrightarrow> map (at m) [0..<n] = take n m"
  by (auto simp: list_eq_iff_nth_eq at_def)

text \<open>
  What \<open>escape\<close> returns when \<open>%03o\<close> prints three digits for every byte and the length
  of the result fits an \<open>int\<close>.
\<close>

lemma escape_ok:
  assumes td: "\<forall>c \<in> set (take (nat (clamp_len text cnt)) text). three_digits signed_char c"
    and fit: "length (concat (map spec_escape_byte (take (nat (clamp_len text cnt)) text))) + 1 < 2 ^ 31"
    and av: "avail (length (concat (map spec_escape_byte (take (nat (clamp_len text cnt)) text))) + 1)"
  shows "escape signed_char avail text cnt =
         Inr (concat (map spec_escape_byte (take (nat (clamp_len text cnt)) text)))"
proof -
  let ?n = "nat (clamp_len text cnt)"
  let ?E = "concat (map spec_escape_byte (take ?n text))"
  have n: "?n \<le> length text" using clamp_len_le [of "text" cnt] strlen_le [of "text"] by simp
  have m: "map (spec_escape_byte \<circ> at text) [0..<?n] = map spec_escape_byte (take ?n text)"
    using map_at_upt [OF n] by (metis map_map)
  have len: "escape_len text ?n 0 0 = Inr (length ?E)"
    using fit by (simp add: escape_len_eq m)
  have add: "int_add (length ?E) 1 = Inr (length ?E + 1)"
    using fit by (rule int_add_Inr)
  have good: "\<forall>j. 0 \<le> j \<and> j < ?n \<longrightarrow> three_digits signed_char (at text j)"
  proof (intro allI impI)
    fix j assume "0 \<le> j \<and> j < ?n"
    then have "at text j = take ?n text ! j" "j < length (take ?n text)"
      using n by (simp_all add: at_def)
    then show "three_digits signed_char (at text j)" using td by (metis nth_mem)
  qed
  have "escape_fill signed_char text ?n 0 ([] @ replicate (length ?E + 1) NUL) (length ([] :: string)) =
        Inr ([] @ concat (map (spec_escape_byte \<circ> at text) [0..<?n])
             @ replicate (length ?E + 1 - length (concat (map (spec_escape_byte \<circ> at text) [0..<?n]))) NUL)"
    by (rule escape_fill_ok [OF good]) (simp add: m)
  then have fill: "escape_fill signed_char text ?n 0 (replicate (length ?E + 1) NUL) 0 =
                   Inr (?E @ replicate 1 NUL)"
    by (simp add: m)
  have "NUL \<notin> set ?E" using NUL_notin_spec_escape_byte by auto
  then have cs: "c_str (?E @ replicate 1 NUL) = ?E" by (rule c_str_append_NUL)
  have "escape signed_char avail text cnt =
        (case escape_fill signed_char text ?n 0 (replicate (length ?E + 1) NUL) 0 of
           Inl x \<Rightarrow> Inl x | Inr esc \<Rightarrow> Inr (c_str esc))"
    by (simp only: escape_def Let_def len add sum.case av if_True)
  also have "\<dots> = Inr (c_str (?E @ replicate 1 NUL))"
    by (simp only: fill sum.case)
  finally show ?thesis by (simp only: cs)
qed

lemma index_of_nth: "distinct xs \<Longrightarrow> p < length xs \<Longrightarrow> index_of (xs ! p) xs = Some p"
proof (induction xs arbitrary: p)
  case Nil
  then show ?case by simp
next
  case (Cons x xs)
  show ?case
  proof (cases p)
    case 0
    then show ?thesis by simp
  next
    case (Suc q)
    then have "xs ! q \<in> set xs" using Cons.prems by simp
    then have "x \<noteq> xs ! q" using Cons.prems by auto
    then show ?thesis using Suc Cons by simp
  qed
qed

lemma distinct_escape_names: "distinct escape_names"
  by (simp add: escape_names_def)

lemma strchr_escape_names:
  assumes "p < 9"
  shows "strchr escape_names (escape_names ! p) = Some p"
proof -
  have "index_of (escape_names ! p) escape_names = Some p"
    using assms by (intro index_of_nth distinct_escape_names) (simp add: length_escape_tables)
  then show ?thesis by (simp add: strchr_def c_str_escape_names index_of_snoc)
qed

lemma at_escape_chars: "p < 9 \<Longrightarrow> at escape_chars p = escape_chars ! p"
  by (simp add: at_def length_escape_tables)

lemma at_append_0: "at (P @ x # xs) (length P) = x"
  by (simp add: at_def)

lemma at_append_1: "at (P @ x # y # xs) (length P + 1) = y"
  by (simp add: at_def nth_append)

lemma backslash_escape: "CHR 0x5C \<in> set escape_chars"
  by (simp add: escape_chars_def)

text \<open>One step of the two loops of \<open>unescape\<close> on the escaped form of a byte.\<close>

lemma unescape_step:
  assumes "literal c"
  shows "(if at (P @ spec_escape_byte c @ E) (length P) = CHR 0x5C
          then strchr escape_names (at (P @ spec_escape_byte c @ E) (length P + 1)) else None)
         = (case index_of c escape_chars of Some p \<Rightarrow> Some p | None \<Rightarrow> None)"
    and "index_of c escape_chars = Some p \<Longrightarrow> at escape_chars p = c \<and> spec_escape_byte c = [CHR 0x5C, escape_names ! p]"
    and "index_of c escape_chars = None \<Longrightarrow> spec_escape_byte c = [c] \<and> at (P @ spec_escape_byte c @ E) (length P) = c"
proof -
  show "index_of c escape_chars = Some p \<Longrightarrow> at escape_chars p = c \<and> spec_escape_byte c = [CHR 0x5C, escape_names ! p]"
    using index_of_Some [of c escape_chars p]
    by (simp add: at_escape_chars length_escape_tables spec_escape_byte_def)
  have n: "spec_escape_byte c = [c]" if a: "index_of c escape_chars = None"
  proof -
    have "c \<notin> set escape_chars" using a by (simp add: index_of_None)
    then have "isprint c" using assms by (simp add: literal_iff)
    then show ?thesis using a by (simp add: spec_escape_byte_def)
  qed
  then show "index_of c escape_chars = None \<Longrightarrow> spec_escape_byte c = [c] \<and> at (P @ spec_escape_byte c @ E) (length P) = c"
    by (simp add: at_append_0)
  show "(if at (P @ spec_escape_byte c @ E) (length P) = CHR 0x5C
          then strchr escape_names (at (P @ spec_escape_byte c @ E) (length P + 1)) else None)
         = (case index_of c escape_chars of Some p \<Rightarrow> Some p | None \<Rightarrow> None)"
  proof (cases "index_of c escape_chars")
    case None
    then have "c \<noteq> CHR 0x5C" using backslash_escape by (auto simp: index_of_None)
    then show ?thesis using None n by (simp add: at_append_0)
  next
    case (Some q)
    then have q: "q < 9" using index_of_Some [of c escape_chars q] by (simp add: length_escape_tables)
    have sb: "spec_escape_byte c = [CHR 0x5C, escape_names ! q]"
      using Some by (simp add: spec_escape_byte_def)
    show ?thesis
      using Some at_append_0 [of P "CHR 0x5C" "escape_names ! q # E"]
        at_append_1 [of P "CHR 0x5C" "escape_names ! q" E]
      by (simp add: sb strchr_escape_names [OF q])
  qed
qed

lemma unescape_size_escaped:
  assumes "\<forall>c \<in> set s. literal c"
    and "length P + length (concat (map spec_escape_byte s)) < 2 ^ 31"
  shows "unescape_size (P @ concat (map spec_escape_byte s))
           (length P + length (concat (map spec_escape_byte s))) (length P) sz
         = Inr (sz + length s)"
  using assms
proof (induction s arbitrary: P sz)
  case Nil
  show ?case by (subst unescape_size.simps) simp
next
  case (Cons c s)
  let ?E = "concat (map spec_escape_byte s)"
  let ?S = "P @ spec_escape_byte c @ ?E"
  have c: "literal c" and s: "\<forall>c \<in> set s. literal c" using Cons.prems by auto
  have fit: "length P + length (spec_escape_byte c) + length ?E < 2 ^ 31"
    using Cons.prems(2) by simp
  have lt: "length P < length P + length (spec_escape_byte c @ ?E)"
    by (simp add: length_spec_escape_byte)
  have IH: "unescape_size ?S (length P + length (spec_escape_byte c @ ?E))
              (length (P @ spec_escape_byte c)) (sz + 1) = Inr (sz + 1 + length s)"
    using Cons.IH [OF s, of "P @ spec_escape_byte c" "sz + 1"] fit by (simp add: add.assoc)
  have "unescape_size ?S (length P + length (spec_escape_byte c @ ?E)) (length P) sz
        = unescape_size ?S (length P + length (spec_escape_byte c @ ?E))
              (length (P @ spec_escape_byte c)) (sz + 1)"
  proof (cases "index_of c escape_chars")
    case None
    have "\<not> (at ?S (length P) = CHR 0x5C \<and> strchr escape_names (at ?S (length P + 1)) \<noteq> None)"
      using unescape_step(1) [OF c, of P ?E] None by (auto split: if_splits)
    moreover have "spec_escape_byte c = [c]"
      using unescape_step(3) [OF c None, of P ?E] by blast
    ultimately show ?thesis
      using lt by (subst unescape_size.simps) auto
  next
    case (Some p)
    have "at ?S (length P) = CHR 0x5C \<and> strchr escape_names (at ?S (length P + 1)) \<noteq> None"
      using unescape_step(1) [OF c, of P ?E] Some by (auto split: if_splits)
    moreover have sb: "spec_escape_byte c = [CHR 0x5C, escape_names ! p]"
      using unescape_step(2) [OF c Some] by blast
    moreover have "int_add (length P + 1) 1 = Inr (length P + 1 + 1)"
      using fit sb by (intro int_add_Inr) simp
    ultimately show ?thesis
      using lt by (subst unescape_size.simps) auto
  qed
  then show ?case using IH by simp
qed

lemma unescape_fill_escaped:
  assumes "\<forall>c \<in> set s. literal c" and "length s \<le> k"
    and "length P + length (concat (map spec_escape_byte s)) < 2 ^ 31"
  shows "unescape_fill (P @ concat (map spec_escape_byte s))
           (length P + length (concat (map spec_escape_byte s))) (length P)
           (out @ replicate k NUL) (length out)
         = Inr (out @ s @ replicate (k - length s) NUL)"
  using assms
proof (induction s arbitrary: P out k)
  case Nil
  show ?case by (subst unescape_fill.simps) simp
next
  case (Cons c s)
  let ?E = "concat (map spec_escape_byte s)"
  let ?S = "P @ spec_escape_byte c @ ?E"
  let ?len = "length P + length (spec_escape_byte c @ ?E)"
  have c: "literal c" and s: "\<forall>c \<in> set s. literal c" using Cons.prems by auto
  have k: "1 \<le> k" "length s \<le> k - 1" using Cons.prems by auto
  have fit: "length P + length (spec_escape_byte c) + length ?E < 2 ^ 31"
    using Cons.prems(3) by simp
  have lt: "length P < ?len"
    by (simp add: length_spec_escape_byte)
  have st: "store (out @ replicate k NUL) (length out) [c] = Inr ((out @ [c]) @ replicate (k - 1) NUL)"
    using k store_append [of "[c]" k out] by simp
  have IH: "unescape_fill ?S ?len (length (P @ spec_escape_byte c))
              ((out @ [c]) @ replicate (k - 1) NUL) (length out + 1)
            = Inr ((out @ [c]) @ s @ replicate (k - 1 - length s) NUL)"
    using Cons.IH [OF s k(2), of "P @ spec_escape_byte c" "out @ [c]"] fit by (simp add: add.assoc)
  have "unescape_fill ?S ?len (length P) (out @ replicate k NUL) (length out)
        = unescape_fill ?S ?len (length (P @ spec_escape_byte c))
              ((out @ [c]) @ replicate (k - 1) NUL) (length out + 1)"
  proof (cases "index_of c escape_chars")
    case None
    have "(if at ?S (length P) = CHR 0x5C then strchr escape_names (at ?S (length P + 1)) else None) = None"
      using unescape_step(1) [OF c, of P ?E] None by simp
    moreover have "spec_escape_byte c = [c]" "at ?S (length P) = c"
      using unescape_step(3) [OF c None, of P ?E] by blast+
    ultimately show ?thesis
      using lt st by (subst unescape_fill.simps) simp
  next
    case (Some p)
    have "(if at ?S (length P) = CHR 0x5C then strchr escape_names (at ?S (length P + 1)) else None) = Some p"
      using unescape_step(1) [OF c, of P ?E] Some by simp
    moreover have sb: "spec_escape_byte c = [CHR 0x5C, escape_names ! p]" "at escape_chars p = c"
      using unescape_step(2) [OF c Some] by blast+
    moreover have "int_add (length P + 1) 1 = Inr (length P + 1 + 1)"
      using fit sb(1) by (intro int_add_Inr) simp
    ultimately show ?thesis
      using lt st by (subst unescape_fill.simps) simp
  qed
  then show ?case using IH by simp
qed

lemma literal_not_NUL: "literal c \<Longrightarrow> c \<noteq> NUL"
  using NUL_notin_escape_chars not_isprint_NUL by (auto simp: literal_iff)

lemma literal_three_digits:
  assumes "literal c"
  shows "three_digits signed_char c"
proof -
  have "(of_char c :: nat) < 128"
    using assms by (auto simp: literal_iff escape_chars_def isprint_def)
  then show ?thesis by (simp add: three_digits_iff)
qed

lemma strlen_no_NUL: "NUL \<notin> set s \<Longrightarrow> strlen s = length s"
  by (simp add: strlen_def c_str_no_NUL)

lemma clamp_len_full: "strlen s < 2 ^ 31 \<Longrightarrow> clamp_len s (- 1) = int (strlen s)"
  by (simp add: clamp_len_def to_int_small)

text \<open>The length of the escaped form of a string of the domain.\<close>

lemma length_escaped_literal:
  assumes "\<forall>c \<in> set s. literal c"
  shows "length (concat (map spec_escape_byte s))
         = length s + length (filter (\<lambda>c. c \<in> set escape_chars) s)"
  using assms
proof (induction s)
  case Nil
  show ?case by simp
next
  case (Cons c s)
  have "length (spec_escape_byte c) = (if c \<in> set escape_chars then 2 else 1)"
    using Cons.prems by (auto simp: length_spec_escape_byte index_of_None literal_iff)
  then show ?case using Cons by simp
qed

lemma unescape_escaped:
  assumes lit: "\<forall>c \<in> set s. literal c"
    and fit: "length (concat (map spec_escape_byte s)) < 2 ^ 31"
    and av: "avail (length s + 1)"
  shows "unescape avail (concat (map spec_escape_byte s)) (- 1) = Inr s"
proof -
  let ?E = "concat (map spec_escape_byte s)"
  have "NUL \<notin> set ?E" using NUL_notin_spec_escape_byte by auto
  then have "strlen ?E = length ?E" by (rule strlen_no_NUL)
  then have len: "nat (clamp_len ?E (- 1)) = length ?E"
    using fit by (simp add: clamp_len_full)
  have sz: "unescape_size ?E (length ?E) 0 0 = Inr (length s)"
    using unescape_size_escaped [OF lit, of "[]" 0] fit by simp
  have fill: "unescape_fill ?E (length ?E) 0 (replicate (length s + 1) NUL) 0 = Inr (s @ replicate 1 NUL)"
    using unescape_fill_escaped [OF lit, of "length s + 1" "[]" "[]"] fit by simp
  have "NUL \<notin> set s" using lit literal_not_NUL by auto
  then have cs: "c_str (s @ replicate 1 NUL) = s" by (rule c_str_append_NUL)
  have "unescape avail ?E (- 1) =
        (case unescape_fill ?E (length ?E) 0 (replicate (length s + 1) NUL) 0 of
           Inl x \<Rightarrow> Inl x | Inr result \<Rightarrow> Inr (c_str result))"
    by (simp only: unescape_def Let_def len sz sum.case av if_True)
  also have "\<dots> = Inr (c_str (s @ replicate 1 NUL))"
    by (simp only: fill sum.case)
  finally show ?thesis by (simp only: cs)
qed

lemma escape_literal:
  assumes lit: "\<forall>c \<in> set s. literal c"
    and fit: "length (concat (map spec_escape_byte s)) + 1 < 2 ^ 31"
    and av: "\<And>n. avail n"
  shows "escape signed_char avail s (- 1) = Inr (concat (map spec_escape_byte s))"
proof -
  have "NUL \<notin> set s" using lit literal_not_NUL by auto
  then have "strlen s = length s" by (rule strlen_no_NUL)
  moreover have "length s < 2 ^ 31" using fit length_escaped_literal [OF lit] by simp
  ultimately have n: "nat (clamp_len s (- 1)) = length s" by (simp add: clamp_len_full)
  have td: "\<forall>c \<in> set (take (nat (clamp_len s (- 1))) s). three_digits signed_char c"
    using lit literal_three_digits by (simp add: n)
  have fit': "length (concat (map spec_escape_byte (take (nat (clamp_len s (- 1))) s))) + 1 < 2 ^ 31"
    using fit by (simp add: n)
  have "escape signed_char avail s (- 1) =
             Inr (concat (map spec_escape_byte (take (nat (clamp_len s (- 1))) s)))"
    using td fit' av by (rule escape_ok)
  then show ?thesis by (simp add: n)
qed

text \<open>What the loops of \<open>escape\<close> make of a run of one byte.\<close>

lemma length_escaped_replicate:
  "length (concat (map spec_escape_byte (replicate k c))) = k * length (spec_escape_byte c)"
  by (induction k) simp_all

lemma strlen_replicate: "c \<noteq> NUL \<Longrightarrow> strlen (replicate k c) = k"
  by (simp add: strlen_no_NUL)

text \<open>
  Claim C1 says that \<open>unescape\<close> undoes \<open>escape\<close> on every string built from the
  control-escape characters and printable ASCII. The code keeps the length of the
  escaped string in the \<open>int\<close> \<open>len\<close>, which excludes the strings whose escaped form
  does not fit: for \<open>2 ^ 30\<close> backslashes \<open>len += 2\<close> overflows in the first loop of
  \<open>escape\<close>, and no string is returned.
\<close>

theorem escape_unescape_roundtrip_counterexample:
  "escape True (\<lambda>n. True) (replicate (2 ^ 30) (CHR 0x5C)) (- 1) = Inl Fault"
proof -
  let ?s = "replicate (2 ^ 30) (CHR 0x5C)"
  have "strlen ?s = 2 ^ 30" by (rule strlen_replicate) (simp add: NUL_def)
  then have n: "nat (clamp_len ?s (- 1)) = 2 ^ 30" by (simp add: clamp_len_full)
  have "map (at ?s) [0..<2 ^ 30] = take (2 ^ 30) ?s"
    by (rule map_at_upt) simp
  then have a: "map (spec_escape_byte \<circ> at ?s) [0..<2 ^ 30] = map spec_escape_byte ?s"
    by (simp only: map_map [symmetric] take_replicate min.idem)
  have b: "length (concat (map spec_escape_byte ?s)) = 2 ^ 30 * length (spec_escape_byte (CHR 0x5C))"
    by (rule length_escaped_replicate)
  have c: "length (spec_escape_byte (CHR 0x5C)) = 2"
    by (simp add: length_spec_escape_byte escape_chars_def)
  have "length (concat (map (spec_escape_byte \<circ> at ?s) [0..<2 ^ 30])) = 2 ^ 30 * 2"
    by (simp only: a b c)
  then have "escape_len ?s (2 ^ 30) 0 0 = Inl Fault"
    by (simp add: escape_len_eq)
  then show ?thesis by (simp only: escape_def Let_def n sum.case)
qed

text \<open>
  Claim C1, amended. For every string built only from the control-escape characters
  (the double quote, \<open>\a\<close>, \<open>\b\<close>, \<open>\t\<close>, \<open>\n\<close>, \<open>\v\<close>, \<open>\f\<close>, \<open>\r\<close> and the backslash)
  and printable ASCII characters whose escaped form fits an \<open>int\<close> together with its
  terminator (its length is that of the string plus the number of control-escape
  characters in it), \<open>escape\<close> returns a string and \<open>unescape\<close> of that string gives the
  original back, whenever the allocator grants the requests and whatever the
  signedness of plain \<open>char\<close>.
\<close>

theorem escape_unescape_roundtrip:
  assumes "\<forall>c \<in> set s. c \<in> set escape_chars \<or> isprint c"
    and "length s + length (filter (\<lambda>c. c \<in> set escape_chars) s) + 1 < 2 ^ 31"
    and "\<And>n. avail n"
  shows "\<exists>e. escape signed_char avail s (- 1) = Inr e \<and> unescape avail e (- 1) = Inr s"
proof -
  have lit: "\<forall>c \<in> set s. literal c" using assms(1) by (simp add: literal_iff)
  have fit: "length (concat (map spec_escape_byte s)) + 1 < 2 ^ 31"
    using assms(2) by (simp add: length_escaped_literal [OF lit])
  then have fit': "length (concat (map spec_escape_byte s)) < 2 ^ 31" by simp
  have "escape signed_char avail s (- 1) = Inr (concat (map spec_escape_byte s))"
    using lit fit assms(3) by (rule escape_literal)
  moreover have "unescape avail (concat (map spec_escape_byte s)) (- 1) = Inr s"
    using lit fit' assms(3) by (rule unescape_escaped)
  ultimately show ?thesis by blast
qed

theorem escape_unescape_roundtrip_witness:
  "\<exists>e. escape True (\<lambda>n. True) [CHR ''a'', CHR 0x5C, CHR ''n'', CHR 0x0A, CHR 0x22] (- 1) = Inr e
       \<and> unescape (\<lambda>n. True) e (- 1) = Inr [CHR ''a'', CHR 0x5C, CHR ''n'', CHR 0x0A, CHR 0x22]"
  by (rule escape_unescape_roundtrip) (simp_all add: escape_chars_def isprint_def)

lemma spec_escape_byte_plain:
  assumes "\<forall>c \<in> set s. isprint c \<and> c \<notin> set escape_chars"
  shows "concat (map spec_escape_byte s) = s"
  using assms
proof (induction s)
  case Nil
  show ?case by simp
next
  case (Cons c s)
  then have "index_of c escape_chars = None" "isprint c" by (simp_all add: index_of_None)
  then have "spec_escape_byte c = [c]" by (simp add: spec_escape_byte_def)
  then show ?case using Cons by simp
qed

lemma escape_plain:
  assumes "\<forall>c \<in> set s. isprint c \<and> c \<notin> set escape_chars"
    and "length s + 1 < 2 ^ 31" and "\<And>n. avail n"
  shows "escape signed_char avail s (- 1) = Inr s"
proof -
  have lit: "\<forall>c \<in> set s. literal c" using assms(1) by (simp add: literal_iff)
  have E: "concat (map spec_escape_byte s) = s" using assms(1) by (rule spec_escape_byte_plain)
  have "escape signed_char avail s (- 1) = Inr (concat (map spec_escape_byte s))"
    using lit assms(2,3) by (intro escape_literal) (simp_all add: E)
  then show ?thesis by (simp only: E)
qed

lemma unescape_plain:
  assumes "\<forall>c \<in> set s. isprint c \<and> c \<notin> set escape_chars"
    and "length s < 2 ^ 31" and "\<And>n. avail n"
  shows "unescape avail s (- 1) = Inr s"
proof -
  have lit: "\<forall>c \<in> set s. literal c" using assms(1) by (simp add: literal_iff)
  have E: "concat (map spec_escape_byte s) = s" using assms(1) by (rule spec_escape_byte_plain)
  have "unescape avail (concat (map spec_escape_byte s)) (- 1) = Inr s"
    using lit assms(2,3) by (intro unescape_escaped) (simp_all add: E)
  then show ?thesis by (simp only: E)
qed

text \<open>The equations that evaluate the functions on a given input.\<close>

lemmas eval_defs = clamp_len_def to_int_def int_add_def strlen_def c_str_def NUL_def at_def
  strchr_def escape_names_def escape_chars_def store_def isprint_def sprintf_octal_def
  octal_arg_def escape_len.simps escape_fill.simps unescape_size.simps unescape_fill.simps
  octal.simps

text \<open>
  Claim C5 says that \<open>escape\<close> and \<open>unescape\<close> leave every string of printable
  characters without control-escape characters as it is. Both keep the length of
  their argument in an \<open>int\<close>, which excludes the strings that are longer: the length
  \<open>2 ^ 31\<close> becomes a negative \<open>int\<close>, the loops do not run, and the empty string is
  returned for a string of \<open>2 ^ 31\<close> letters.
\<close>

theorem escape_unescape_identity_counterexample:
  "escape True (\<lambda>n. True) (replicate (2 ^ 31) (CHR ''a'')) (- 1) = Inr []
   \<and> unescape (\<lambda>n. True) (replicate (2 ^ 31) (CHR ''a'')) (- 1) = Inr []"
proof -
  let ?s = "replicate (2 ^ 31) (CHR ''a'')"
  have "strlen ?s = 2 ^ 31" by (rule strlen_replicate) (simp add: NUL_def)
  then have n: "nat (clamp_len ?s (- 1)) = 0" by (simp add: clamp_len_def to_int_def)
  have e: "escape_len ?s 0 0 0 = Inr 0" "int_add 0 1 = Inr 1"
    "escape_fill True ?s 0 0 (replicate 1 NUL) 0 = Inr (replicate 1 NUL)"
    by (simp_all add: escape_len.simps escape_fill.simps int_add_def)
  have u: "unescape_size ?s 0 0 0 = Inr 0"
    "unescape_fill ?s 0 0 (replicate (0 + 1) NUL) 0 = Inr (replicate 1 NUL)"
    by (simp_all add: unescape_size.simps unescape_fill.simps)
  have c: "c_str (replicate 1 NUL) = []" by (simp add: c_str_def)
  have "escape True (\<lambda>n. True) ?s (- 1) = Inr []"
    by (simp only: escape_def Let_def n e sum.case if_True c)
  moreover have "unescape (\<lambda>n. True) ?s (- 1) = Inr []"
    by (simp only: unescape_def Let_def n u sum.case if_True c)
  ultimately show ?thesis by blast
qed

text \<open>
  Claim C5, amended. A string of printable characters that contains none of the
  control-escape characters, and whose length fits an \<open>int\<close> together with the
  terminator, is left as it is by \<open>escape\<close> and by \<open>unescape\<close>, whenever the allocator
  grants the requests.
\<close>

theorem escape_unescape_identity:
  assumes "\<forall>c \<in> set s. isprint c \<and> c \<notin> set escape_chars"
    and "length s + 1 < 2 ^ 31" and "\<And>n. avail n"
  shows "escape signed_char avail s (- 1) = Inr s \<and> unescape avail s (- 1) = Inr s"
proof
  show "escape signed_char avail s (- 1) = Inr s"
    using assms by (rule escape_plain)
  show "unescape avail s (- 1) = Inr s"
    using assms(1) _ assms(3) by (rule unescape_plain) (use assms(2) in simp)
qed

theorem escape_unescape_identity_witness:
  "escape True (\<lambda>n. True) ''key = value'' (- 1) = Inr ''key = value''
   \<and> unescape (\<lambda>n. True) ''key = value'' (- 1) = Inr ''key = value''"
  by (rule escape_unescape_identity) (simp_all add: escape_chars_def isprint_def)

text \<open>
  Claim C9. On the empty string \<open>escape\<close> and \<open>unescape\<close> return an allocated empty
  string, not the null pointer, for every \<open>cnt\<close> and \<open>len\<close>, when the one byte of the
  terminator is granted.
\<close>

theorem escape_unescape_empty:
  assumes "avail 1"
  shows "escape signed_char avail [] cnt = Inr [] \<and> unescape avail [] len = Inr []"
proof -
  have c: "clamp_len [] cnt = 0" "clamp_len [] len = 0"
    by (simp_all add: clamp_len_def to_int_def strlen_def c_str_def)
  show ?thesis
    using assms
    by (simp add: escape_def unescape_def c escape_len.simps escape_fill.simps
        unescape_size.simps unescape_fill.simps c_str_def int_add_def)
qed

theorem escape_unescape_empty_witness:
  "escape True (\<lambda>n. True) [] 7 = Inr [] \<and> unescape (\<lambda>n. True) [] (- 3) = Inr []"
  by (rule escape_unescape_empty) simp

text \<open>
  Claim C3 says that \<open>unescape\<close> copies a lone backslash at the end of the input as it
  is. The code does not: \<open>strchr\<close> finds the terminator that follows the backslash in
  \<open>escape_names\<close>, at offset 9, so the backslash is taken for the start of an escape
  sequence and the byte \<open>escape_chars[9]\<close>, the terminator, is stored in its place.
  The string of the single backslash is unescaped to the empty string, and \<open>abc\<close> with
  a backslash behind it to \<open>abc\<close>. A backslash before a letter that is no escape name
  is copied, as the claim says.
\<close>

theorem unescape_lone_backslash:
  "unescape (\<lambda>n. True) [CHR 0x5C] (- 1) = Inr []
   \<and> unescape (\<lambda>n. True) (''abc'' @ [CHR 0x5C]) (- 1) = Inr ''abc''
   \<and> unescape (\<lambda>n. True) [CHR 0x5C, CHR ''x''] (- 1) = Inr [CHR 0x5C, CHR ''x'']"
  by (simp add: unescape_def eval_defs)

theorem unescape_lone_backslash_witness:
  "unescape (\<lambda>n. True) [CHR 0x5C] (- 1) \<noteq> Inr [CHR 0x5C]"
  using unescape_lone_backslash by simp

text \<open>
  Claim C4 says that \<open>escape\<close> emits four bytes, a backslash and three octal digits, for
  a byte that is neither printable nor in the control-escape set. Where plain \<open>char\<close>
  is signed the code does not for the bytes from 0x80 on: \<open>text[i]\<close> is passed to
  \<open>sprintf\<close> without a cast to \<open>unsigned char\<close>, so \<open>%03o\<close> prints the eleven digits
  of a negative \<open>int\<close>, while the first loop has counted four bytes. For the string of
  the single byte 0x80 the block has five bytes and \<open>sprintf\<close> stores thirteen. Where
  later bytes leave room for them, the four bytes that stay are \<open>\377\<close>, not the octal
  digits 200 of the byte, which are printed where plain \<open>char\<close> is unsigned.
\<close>

theorem escape_high_byte_overflow:
  "escape_len [CHR 0x80] 1 0 0 = Inr 4
   \<and> sprintf_octal (octal_arg True (CHR 0x80)) = CHR 0x5C # ''37777777600'' @ [NUL]
   \<and> escape True (\<lambda>n. True) [CHR 0x80] (- 1) = Inl Fault
   \<and> escape True (\<lambda>n. True) (CHR 0x80 # ''abcdefghi'') (- 1) = Inr (CHR 0x5C # ''377abcdefghi'')
   \<and> escape False (\<lambda>n. True) [CHR 0x80] (- 1) = Inr (CHR 0x5C # ''200'')"
  by (simp add: escape_def eval_defs)

theorem escape_high_byte_overflow_witness:
  "escape True (\<lambda>n. True) [CHR 0x80] (- 1) \<noteq> Inr (CHR 0x5C # ''200'')"
  using escape_high_byte_overflow by simp

section \<open>Properties of fread_file_lim and read_file\<close>


declare fread_file_loop.simps [simp del]

lemma deliverable_le: "deliverable st \<le> length (pending st)"
  by (simp add: deliverable_def split: option.splits)

lemma not_fails_deliverable: "\<not> fails st \<Longrightarrow> deliverable st = length (pending st)"
  by (auto simp: fails_def deliverable_def split: option.splits)

lemma fread_fst: "fst (fread n st) = take (min n (deliverable st)) (pending st)"
  by (simp add: fread_def Let_def)

lemma length_fread: "length (fst (fread n st)) = min n (deliverable st)"
  using deliverable_le [of st] by (simp add: fread_fst)

lemma fread_error_ind: "error_ind (snd (fread n st)) = (error_ind st \<or> (deliverable st < n \<and> fails st))"
  by (auto simp: fread_def Let_def)

lemma fread_full:
  assumes "n \<le> deliverable st"
  shows "pending (snd (fread n st)) = drop n (pending st)"
    and "deliverable (snd (fread n st)) = deliverable st - n"
    and "fails (snd (fread n st)) = fails st"
    and "error_ind (snd (fread n st)) = error_ind st"
  using assms deliverable_le [of st]
  by (auto simp: fread_def Let_def deliverable_def fails_def min_def split: option.splits)

text \<open>The result of the loop, when every request for memory is granted.\<close>

lemma fread_file_loop_result:
  assumes B: "0 < BUFSIZ" and av: "\<And>n. avail n"
  shows "fst (fread_file_loop BUFSIZ avail st max_len buf alloc) =
         (if error_ind st \<or> (fails st \<and> deliverable st < max_len - length buf) then None
          else Some (buf @ take (max_len - length buf) (pending st)))"
proof (induction "length (pending st)" arbitrary: st buf alloc rule: less_induct)
  case less
  define alloc' where "alloc' =
    (if length buf + BUFSIZ + 1 > alloc
     then (if alloc + alloc div 2 < length buf + BUFSIZ + 1 then length buf + BUFSIZ + 1
           else alloc + alloc div 2)
     else alloc)"
  define room where "room = max_len - length buf"
  define req where "req = min (if length buf < max_len then max_len - length buf else 0)
                              (alloc' - length buf - 1)"
  define r where "r = fread req st"
  have cap: "BUFSIZ \<le> alloc' - length buf - 1" by (auto simp: alloc'_def)
  have req_le: "req \<le> room" by (auto simp: req_def room_def)
  have req0: "req = 0 \<longleftrightarrow> room = 0" using cap B by (auto simp: req_def room_def)
  have unfold: "fread_file_loop BUFSIZ avail st max_len buf alloc =
        (if length (fst r) \<noteq> req \<or> req = 0 then
           (if error_ind (snd r) then (None, snd r) else (Some (buf @ fst r), snd r))
         else fread_file_loop BUFSIZ avail (snd r) max_len (buf @ fst r) alloc')"
    unfolding r_def req_def alloc'_def
    by (subst fread_file_loop.simps) (simp only: Let_def av simp_thms if_False)
  show ?case
  proof (cases "req \<le> deliverable st \<and> req \<noteq> 0")
    case True
    then have full: "req \<le> deliverable st" and pos: "0 < req" by auto
    have len: "length (fst r) = req" using full by (simp add: r_def length_fread)
    have got: "fst r = take req (pending st)" using full by (simp add: r_def fread_fst min_absorb1)
    have smaller: "length (pending (snd r)) < length (pending st)"
      using full pos deliverable_le [of st] by (simp add: r_def fread_full(1) [OF full])
    have room': "max_len - length (buf @ fst r) = room - req"
      by (simp add: len room_def)
    have IH: "fst (fread_file_loop BUFSIZ avail (snd r) max_len (buf @ fst r) alloc') =
         (if error_ind st \<or> (fails st \<and> deliverable st - req < room - req) then None
          else Some ((buf @ fst r) @ take (room - req) (drop req (pending st))))"
      using less [OF smaller, of "buf @ fst r" alloc']
      by (simp only: fread_full [OF full, folded r_def] room')
    have cmp: "(deliverable st - req < room - req) = (deliverable st < room)"
      using full req_le by linarith
    have "take req (pending st) @ take (room - req) (drop req (pending st)) = take (req + (room - req)) (pending st)"
      by (simp only: take_add)
    also have "\<dots> = take room (pending st)" using req_le by simp
    finally have cat: "(buf @ fst r) @ take (room - req) (drop req (pending st)) = buf @ take room (pending st)"
      by (simp add: got)
    have "fread_file_loop BUFSIZ avail st max_len buf alloc =
          fread_file_loop BUFSIZ avail (snd r) max_len (buf @ fst r) alloc'"
      using len pos by (subst unfold) simp
    then have "fst (fread_file_loop BUFSIZ avail st max_len buf alloc) =
         (if error_ind st \<or> (fails st \<and> deliverable st < room) then None
          else Some (buf @ take room (pending st)))"
      by (simp only: IH cmp cat)
    then show ?thesis by (simp only: room_def)
  next
    case False
    then consider (zero) "req = 0" | (short) "deliverable st < req" by linarith
    then show ?thesis
    proof cases
      case zero
      then have room: "room = 0" using req0 by simp
      have "fst r = []" using zero by (simp add: r_def fread_fst)
      moreover have "error_ind (snd r) = error_ind st" using zero by (simp add: r_def fread_error_ind)
      ultimately have "fst (fread_file_loop BUFSIZ avail st max_len buf alloc) =
            (if error_ind st then None else Some buf)"
        using zero by (subst unfold) simp
      then show ?thesis using room by (simp add: room_def)
    next
      case short
      then have len: "length (fst r) = deliverable st" "length (fst r) \<noteq> req"
        by (simp_all add: r_def length_fread)
      have got: "fst r = take (deliverable st) (pending st)"
        using short by (simp add: r_def fread_fst min_absorb2)
      have err: "error_ind (snd r) = (error_ind st \<or> fails st)"
        using short by (simp add: r_def fread_error_ind)
      have res: "fst (fread_file_loop BUFSIZ avail st max_len buf alloc) =
            (if error_ind st \<or> fails st then None else Some (buf @ take (deliverable st) (pending st)))"
        using len(2) err got by (subst unfold) simp
      have lt: "deliverable st < room" using short req_le by linarith
      show ?thesis
      proof (cases "fails st")
        case True
        then show ?thesis using res lt by (simp add: room_def)
      next
        case False
        then have "deliverable st = length (pending st)" by (rule not_fails_deliverable)
        then have "take (deliverable st) (pending st) = take room (pending st)"
          using lt by simp
        then show ?thesis using res False by (simp add: room_def)
      qed
    qed
  qed
qed


text \<open>
  Claim C8. \<open>fread_file_lim\<close> stops at the first read that is short or asks for no
  byte; the buffer it returns holds the first \<open>max_len\<close> bytes of the stream, or all
  of them when the stream ends before, so never more than \<open>max_len\<close>. It returns the
  null pointer when the error indicator is set at that read, which is when a read
  error lies before both the end of the stream and \<open>max_len\<close>; the end of the stream
  before \<open>max_len\<close> is a success. This holds when the requests for memory are granted.
\<close>

theorem fread_file_lim_result:
  assumes "0 < BUFSIZ" and "\<And>n. avail n"
  shows "fst (fread_file_lim BUFSIZ avail stream max_len) =
           (if error_ind stream \<or> (fails stream \<and> deliverable stream < max_len) then None
            else Some (take max_len (pending stream)))
         \<and> (\<forall>content. fst (fread_file_lim BUFSIZ avail stream max_len) = Some content
               \<longrightarrow> length content \<le> max_len)"
proof -
  have "fst (fread_file_lim BUFSIZ avail stream max_len) =
           (if error_ind stream \<or> (fails stream \<and> deliverable stream < max_len) then None
            else Some (take max_len (pending stream)))"
    using fread_file_loop_result [OF assms, where st = stream and max_len = max_len and buf = "[]" and alloc = 0]
    by (simp add: fread_file_lim_def)
  then show ?thesis by (auto split: if_splits)
qed

theorem fread_file_lim_result_witness:
  "fst (fread_file_lim 4 (\<lambda>n. True) \<lparr>pending = ''0123456789abcdef'', fail_after = None, error_ind = False\<rparr> 10)
     = Some ''0123456789''
   \<and> fst (fread_file_lim 4 (\<lambda>n. True) \<lparr>pending = ''0123456789abcdef'', fail_after = None, error_ind = False\<rparr> 20)
     = Some ''0123456789abcdef''
   \<and> fst (fread_file_lim 4 (\<lambda>n. True) \<lparr>pending = ''0123456789abcdef'', fail_after = Some 9, error_ind = False\<rparr> 20)
     = None
   \<and> fst (fread_file_lim 4 (\<lambda>n. True) \<lparr>pending = ''0123456789abcdef'', fail_after = Some 9, error_ind = False\<rparr> 9)
     = Some ''012345678''"
  using fread_file_lim_result [of 4 "\<lambda>n. True" "\<lparr>pending = ''0123456789abcdef'', fail_after = None, error_ind = False\<rparr>" 10]
    fread_file_lim_result [of 4 "\<lambda>n. True" "\<lparr>pending = ''0123456789abcdef'', fail_after = None, error_ind = False\<rparr>" 20]
    fread_file_lim_result [of 4 "\<lambda>n. True" "\<lparr>pending = ''0123456789abcdef'', fail_after = Some 9, error_ind = False\<rparr>" 20]
    fread_file_lim_result [of 4 "\<lambda>n. True" "\<lparr>pending = ''0123456789abcdef'', fail_after = Some 9, error_ind = False\<rparr>" 9]
  by (simp add: fails_def deliverable_def)

text \<open>
  Claim C2 says that \<open>read_file\<close> returns the null pointer for a file of more than
  32 MiB. The code does not: \<open>fread_file_lim\<close> is given \<open>MAX_READ_LEN\<close> itself as the
  limit, so it stops after 32 MiB and reports that length, and the test
  \<open>len <= MAX_READ_LEN\<close> of \<open>read_file\<close> cannot fail. A file that opens and reads
  without error is returned cut to its first 32 MiB: in full when it has exactly
  32 MiB, as the claim says, and truncated, not refused, when it has more.
\<close>

theorem read_file_truncates:
  assumes "0 < BUFSIZ" and "\<And>n. avail n"
    and "fopen path = Some \<lparr>pending = content, fail_after = None, error_ind = False\<rparr>"
  shows "read_file BUFSIZ avail fopen path = Some (take MAX_READ_LEN content)"
proof -
  let ?fp = "\<lparr>pending = content, fail_after = None, error_ind = False\<rparr>"
  have "fst (fread_file_lim BUFSIZ avail ?fp MAX_READ_LEN) = Some (take MAX_READ_LEN content)"
    using fread_file_loop_result [OF assms(1,2), where st = ?fp and max_len = MAX_READ_LEN and buf = "[]" and alloc = 0]
    by (simp add: fread_file_lim_def fails_def)
  moreover have "length (take MAX_READ_LEN content) \<le> MAX_READ_LEN" by simp
  moreover have "length (take MAX_READ_LEN content) < 2 ^ 31"
    by (simp add: MAX_READ_LEN_def min.strict_coboundedI1)
  ultimately show ?thesis using assms(3) by (simp add: read_file_def)
qed

theorem read_file_truncates_witness:
  "read_file 8192 (\<lambda>n. True)
     (\<lambda>p. Some \<lparr>pending = replicate 33554433 (CHR ''x''), fail_after = None, error_ind = False\<rparr>)
     ''/etc/big''
   = Some (replicate 33554432 (CHR ''x''))"
  using read_file_truncates [of 8192 "\<lambda>n. True"
      "\<lambda>p. Some \<lparr>pending = replicate 33554433 (CHR ''x''), fail_after = None, error_ind = False\<rparr>"
      "''/etc/big''" "replicate 33554433 (CHR ''x'')"]
  by (simp add: MAX_READ_LEN_def)

section \<open>Properties of format_pos\<close>

lemma escape_fill_cong:
  assumes "\<forall>j. i \<le> j \<and> j < cnt \<longrightarrow> at t1 j = at t2 j"
  shows "escape_fill signed_char t1 cnt i esc e = escape_fill signed_char t2 cnt i esc e"
  using assms
proof (induction "cnt - i" arbitrary: i esc e)
  case 0
  then show ?case by (simp add: escape_fill.simps)
next
  case (Suc n)
  then have lt: "i < cnt" and n: "n = cnt - (i + 1)" by auto
  have eq: "at t1 i = at t2 i" using Suc.prems lt by simp
  have rest: "\<forall>j. i + 1 \<le> j \<and> j < cnt \<longrightarrow> at t1 j = at t2 j" using Suc.prems by simp
  note IH = Suc.hyps(1) [OF n rest]
  show ?case
    by (subst escape_fill.simps, subst (2) escape_fill.simps)
       (simp only: eq IH)
qed

lemma c_str_take: "c_str (take n m) = take n (c_str m)"
proof (induction m arbitrary: n)
  case Nil
  then show ?case by (simp add: c_str_def)
next
  case (Cons x m)
  then show ?case by (cases n) (simp_all add: c_str_def)
qed

lemma clamp_len_take:
  assumes "0 \<le> cnt" and "cnt < 2 ^ 31"
  shows "clamp_len (take (nat cnt) m) (- 1) = clamp_len m cnt"
proof (cases "cnt > int (strlen m)")
  case True
  then have "min (nat cnt) (strlen m) = strlen m" by simp
  then show ?thesis using assms True by (simp add: clamp_len_def strlen_def c_str_take)
next
  case False
  then have "min (nat cnt) (strlen m) = nat cnt" using assms by simp
  moreover have "to_int (nat cnt) = cnt" using assms by (simp add: to_int_small)
  ultimately show ?thesis using assms False by (simp add: clamp_len_def strlen_def c_str_take)
qed

lemma at_take: "j < n \<Longrightarrow> at (take n m) j = at m j"
  by (simp add: at_def)

text \<open>\<open>escape\<close> looks at the first \<open>cnt\<close> bytes only.\<close>

lemma escape_take:
  assumes "0 \<le> cnt" and "cnt < 2 ^ 31"
  shows "escape signed_char avail m cnt = escape signed_char avail (take (nat cnt) m) (- 1)"
proof -
  let ?n = "nat (clamp_len m cnt)"
  have n: "clamp_len (take (nat cnt) m) (- 1) = clamp_len m cnt" using assms by (rule clamp_len_take)
  have le: "?n \<le> nat cnt" using assms to_int_le [of "strlen m"] by (auto simp: clamp_len_def)
  have same: "\<forall>j. 0 \<le> j \<and> j < ?n \<longrightarrow> at (take (nat cnt) m) j = at m j"
    using le by (simp add: at_take)
  have meq: "map (spec_escape_byte \<circ> at (take (nat cnt) m)) [0..<?n] = map (spec_escape_byte \<circ> at m) [0..<?n]"
    using same by simp
  have z: "(0::nat) < 2 ^ 31" by simp
  have len: "escape_len (take (nat cnt) m) ?n 0 0 = escape_len m ?n 0 0"
    by (simp only: escape_len_eq [OF z] meq)
  have fill: "escape_fill signed_char (take (nat cnt) m) ?n 0 esc e = escape_fill signed_char m ?n 0 esc e"
    for esc e
    using same by (rule escape_fill_cong)
  show ?thesis
    by (simp only: escape_def Let_def n len fill)
qed

lemma escape_result_no_NUL:
  assumes "escape signed_char avail m cnt = Inr e"
  shows "strlen e = length e"
proof -
  obtain esc where "e = c_str esc"
    using assms by (auto simp: escape_def Let_def split: if_splits sum.splits)
  then have "NUL \<notin> set e" by (simp add: NUL_notin_c_str)
  then show ?thesis by (rule strlen_no_NUL)
qed

lemma pad_left_marker: "n < 28 \<Longrightarrow> pad_left (nat (window - int n)) ''<'' = replicate (27 - n) (CHR '' '') @ ''<''"
  by (simp add: pad_left_def window_def nat_diff_distrib')

lemma pad_right_marker: "n < 28 \<Longrightarrow> pad_right (nat (window - int n)) ''>'' = ''>'' @ replicate (27 - n) (CHR '' '')"
  by (simp add: pad_right_def window_def nat_diff_distrib')

text \<open>The result of \<open>format_pos\<close> when its two calls of \<open>escape\<close> return \<open>left\<close> and \<open>right\<close>.\<close>

lemma format_pos_escaped:
  assumes pos: "0 \<le> pos" "pos \<le> int (length m)"
    and left: "escape signed_char avail (take (nat (min pos 28)) (drop (nat pos - nat (min pos 28)) m)) (- 1) = Inr left"
    and right: "escape signed_char avail (take 28 (drop (nat pos) m)) (- 1) = Inr right"
    and av: "\<And>n. avail n"
  shows "format_pos signed_char avail m pos =
         Inr (replicate (27 - length left) (CHR '' '') @ ''<'' @ left @ ''|=|'' @ right @ ''>''
              @ replicate (27 - length right) (CHR '' '') @ [CHR 0x0A])"
proof -
  define before where "before = (if pos > window then window else pos)"
  have b: "before = min pos 28" "0 \<le> before" "before < 2 ^ 31"
    using pos by (auto simp: before_def window_def)
  have off: "nat (pos - min pos 28) = nat pos - nat (min pos 28)" using pos by simp
  have l: "escape signed_char avail (drop (nat (pos - before)) m) before = Inr left"
    using escape_take [OF b(2,3), of signed_char avail "drop (nat (pos - before)) m"] left
    by (simp only: off b(1))
  have w: "0 \<le> window" "window < 2 ^ 31" "nat window = 28" by (simp_all add: window_def)
  have r: "escape signed_char avail (drop (nat pos) m) window = Inr right"
    using escape_take [OF w(1,2), of signed_char avail "drop (nat pos) m"] right
    by (simp only: w(3))
  have sl: "strlen left = length left" using left by (rule escape_result_no_NUL)
  have sr: "strlen right = length right" using right by (rule escape_result_no_NUL)
  have cmp: "(int (length left) < window) = (length left < 28)" "(int (length right) < window) = (length right < 28)"
    by (simp_all add: window_def)
  have "format_pos signed_char avail m pos =
        Inr (if length left < 28 \<and> length right < 28 then
               pad_left (nat (window - int (length left))) ''<'' @ left @ ''|=|'' @ right
                 @ pad_right (nat (window - int (length right))) ''>'' @ [CHR 0x0A]
             else if length left < 28 then
               pad_left (nat (window - int (length left))) ''<'' @ left @ ''|=|'' @ right
                 @ ''>'' @ [CHR 0x0A]
             else if length right < 28 then
               ''<'' @ left @ ''|=|'' @ right
                 @ pad_right (nat (window - int (length right))) ''>'' @ [CHR 0x0A]
             else ''<'' @ left @ ''|=|'' @ right @ ''>'' @ [CHR 0x0A])"
    using pos
    by (simp only: format_pos_def Let_def before_def [symmetric] l r sum.case sl sr cmp av if_True)
       simp
  then show ?thesis
    by (simp add: pad_left_marker pad_right_marker)
qed

lemma length_escaped_le: "length (concat (map spec_escape_byte xs)) \<le> 4 * length xs"
  by (induction xs) (simp_all add: length_spec_escape_byte)

text \<open>\<open>escape\<close> returns a string for a window of at most 28 bytes that avoids the defect of claim C4.\<close>

lemma escape_window:
  assumes "length w \<le> 28" and "\<forall>c \<in> set w. three_digits signed_char c" and "\<And>n. avail n"
  shows "\<exists>e. escape signed_char avail w (- 1) = Inr e"
proof -
  let ?t = "take (nat (clamp_len w (- 1))) w"
  have "length ?t \<le> 28" using assms(1) by simp
  then have "length (concat (map spec_escape_byte ?t)) \<le> 4 * 28"
    using length_escaped_le [of ?t] by linarith
  then have fit: "length (concat (map spec_escape_byte ?t)) + 1 < 2 ^ 31" by simp
  have td: "\<forall>c \<in> set ?t. three_digits signed_char c"
    using assms(2) by (meson in_set_takeD)
  have "escape signed_char avail w (- 1) = Inr (concat (map spec_escape_byte ?t))"
    using td fit assms(3) by (rule escape_ok)
  then show ?thesis by blast
qed

text \<open>
  Claim C6 says that spaces pad a side exactly when its escaped window is shorter than
  28 characters, for every text. In the code the width \<open>28 - length\<close> is that of the
  field of the mark \<open><\<close> or \<open>>\<close>, so a window of 27 escaped characters gets no space:
  27 letters before the offset 27 are printed right behind \<open><\<close>. And where plain \<open>char\<close>
  is signed, a byte from 0x80 on in a window makes \<open>escape\<close> write past its block, the
  defect of claim C4, and no string is returned.
\<close>

theorem format_pos_windows_counterexample:
  "format_pos True (\<lambda>n. True) (replicate 27 (CHR ''a'')) 27 =
     Inr (CHR ''<'' # replicate 27 (CHR ''a'') @ ''|=|>'' @ replicate 27 (CHR '' '') @ [CHR 0x0A])
   \<and> format_pos True (\<lambda>n. True) [CHR 0x80] 0 = Inl Fault"
proof
  have l: "escape True (\<lambda>n. True) (replicate 27 (CHR ''a'')) (- 1) = Inr (replicate 27 (CHR ''a''))"
    by (rule escape_plain) (simp_all add: isprint_def escape_chars_def)
  have r: "escape True (\<lambda>n. True) [] (- 1) = Inr []"
    by (simp add: escape_def eval_defs)
  have "format_pos True (\<lambda>n. True) (replicate 27 (CHR ''a'')) 27 =
         Inr (replicate (27 - length (replicate 27 (CHR ''a''))) (CHR '' '') @ ''<''
              @ replicate 27 (CHR ''a'') @ ''|=|'' @ [] @ ''>''
              @ replicate (27 - length ([] :: string)) (CHR '' '') @ [CHR 0x0A])"
    by (rule format_pos_escaped) (simp_all add: l r)
  then show "format_pos True (\<lambda>n. True) (replicate 27 (CHR ''a'')) 27 =
     Inr (CHR ''<'' # replicate 27 (CHR ''a'') @ ''|=|>'' @ replicate 27 (CHR '' '') @ [CHR 0x0A])"
    by simp
next
  have a: "escape True (\<lambda>n. True) [CHR 0x80] 0 = Inr []"
    by (simp add: escape_def eval_defs)
  have b: "escape True (\<lambda>n. True) [CHR 0x80] 28 = Inl Fault"
    by (simp add: escape_def eval_defs)
  show "format_pos True (\<lambda>n. True) [CHR 0x80] 0 = Inl Fault"
    by (simp add: format_pos_def Let_def window_def a b)
qed

text \<open>
  Claim C6, amended. For an offset \<open>pos\<close> (an \<open>int\<close>) from 0 to the length of the text,
  \<open>format_pos\<close> escapes the \<open>min 28 pos\<close> bytes that end at \<open>pos\<close> and, on their own, the
  up to 28 bytes that start at \<open>pos\<close>. When the two windows hold no byte from 0x80 on
  where plain \<open>char\<close> is signed, and memory is granted, both calls of \<open>escape\<close> return a
  string, \<open>left\<close> and \<open>right\<close>, and the result is \<open>left\<close>, the mark \<open>|=|\<close> and \<open>right\<close>
  between \<open><\<close> and \<open>>\<close> and before a newline, with \<open>27 - length left\<close> spaces in front of
  \<open><\<close> and \<open>27 - length right\<close> spaces behind \<open>>\<close>: spaces on a side exactly when that
  escaped window has fewer than 27 characters. For the text \<open>hello world\<close> and the
  offset 5 this is \<open>hello\<close> left of the mark and \<open> world\<close> right of it, behind 22 and
  before 21 spaces.
\<close>

theorem format_pos_windows:
  assumes "0 \<le> pos" and "pos \<le> int (length m)" and "pos < 2 ^ 31"
    and "\<forall>c \<in> set (take (nat (min pos 28)) (drop (nat pos - nat (min pos 28)) m))
               \<union> set (take 28 (drop (nat pos) m)).
           signed_char \<longrightarrow> (of_char c :: nat) < 128"
    and "\<And>n. avail n"
  shows "(\<exists>left right.
            escape signed_char avail
              (take (nat (min pos 28)) (drop (nat pos - nat (min pos 28)) m)) (- 1) = Inr left
          \<and> escape signed_char avail (take 28 (drop (nat pos) m)) (- 1) = Inr right
          \<and> format_pos signed_char avail m pos =
              Inr (replicate (27 - length left) (CHR '' '') @ ''<'' @ left @ ''|=|'' @ right
                   @ ''>'' @ replicate (27 - length right) (CHR '' '') @ [CHR 0x0A]))
         \<and> format_pos signed_char avail ''hello world'' 5 =
           Inr (replicate 22 (CHR '' '') @ ''<hello|=| world>'' @ replicate 21 (CHR '' '')
                @ [CHR 0x0A])"
proof
  let ?lw = "take (nat (min pos 28)) (drop (nat pos - nat (min pos 28)) m)"
  let ?rw = "take 28 (drop (nat pos) m)"
  have "nat (min pos 28) \<le> 28" by simp
  then have "length ?lw \<le> 28" by (simp add: min.coboundedI2)
  moreover have "\<forall>c \<in> set ?lw. three_digits signed_char c"
    using assms(4) by (auto simp: three_digits_iff)
  ultimately obtain left where l: "escape signed_char avail ?lw (- 1) = Inr left"
    using escape_window [of ?lw signed_char avail] assms(5) by blast
  have "length ?rw \<le> 28" by simp
  moreover have "\<forall>c \<in> set ?rw. three_digits signed_char c"
    using assms(4) by (auto simp: three_digits_iff)
  ultimately obtain right where r: "escape signed_char avail ?rw (- 1) = Inr right"
    using escape_window [of ?rw signed_char avail] assms(5) by blast
  have "format_pos signed_char avail m pos =
              Inr (replicate (27 - length left) (CHR '' '') @ ''<'' @ left @ ''|=|'' @ right
                   @ ''>'' @ replicate (27 - length right) (CHR '' '') @ [CHR 0x0A])"
    using assms(1,2) l r assms(5) by (rule format_pos_escaped)
  then show "\<exists>left right.
            escape signed_char avail ?lw (- 1) = Inr left
          \<and> escape signed_char avail ?rw (- 1) = Inr right
          \<and> format_pos signed_char avail m pos =
              Inr (replicate (27 - length left) (CHR '' '') @ ''<'' @ left @ ''|=|'' @ right
                   @ ''>'' @ replicate (27 - length right) (CHR '' '') @ [CHR 0x0A])"
    using l r by blast
next
  have l: "escape signed_char avail ''hello'' (- 1) = Inr ''hello''"
    by (rule escape_plain) (simp_all add: isprint_def escape_chars_def assms(5))
  have r: "escape signed_char avail '' world'' (- 1) = Inr '' world''"
    by (rule escape_plain) (simp_all add: isprint_def escape_chars_def assms(5))
  have "format_pos signed_char avail ''hello world'' 5 =
           Inr (replicate (27 - length ''hello'') (CHR '' '')
                @ ''<'' @ ''hello'' @ ''|=|'' @ '' world'' @ ''>''
                @ replicate (27 - length '' world'') (CHR '' '')
                @ [CHR 0x0A])"
    by (rule format_pos_escaped) (simp_all add: l r assms(5))
  then show "format_pos signed_char avail ''hello world'' 5 =
           Inr (replicate 22 (CHR '' '') @ ''<hello|=| world>'' @ replicate 21 (CHR '' '')
                @ [CHR 0x0A])"
    by simp
qed

theorem format_pos_windows_witness:
  "format_pos True (\<lambda>n. True) [CHR ''a'', CHR 0x0A, CHR ''b''] 2 =
     Inr (replicate 24 (CHR '' '') @ [CHR ''<'', CHR ''a'', CHR 0x5C, CHR ''n'', CHR ''|'', CHR ''='', CHR ''|'', CHR ''b'', CHR ''>'']
          @ replicate 26 (CHR '' '') @ [CHR 0x0A])"
proof -
  have l: "escape True (\<lambda>n. True) [CHR ''a'', CHR 0x0A] (- 1) = Inr [CHR ''a'', CHR 0x5C, CHR ''n'']"
    by (simp add: escape_def eval_defs)
  have r: "escape True (\<lambda>n. True) [CHR ''b''] (- 1) = Inr [CHR ''b'']"
    by (simp add: escape_def eval_defs)
  have "\<exists>left right.
            escape True (\<lambda>n. True) [CHR ''a'', CHR 0x0A] (- 1) = Inr left
          \<and> escape True (\<lambda>n. True) [CHR ''b''] (- 1) = Inr right
          \<and> format_pos True (\<lambda>n. True) [CHR ''a'', CHR 0x0A, CHR ''b''] 2 =
              Inr (replicate (27 - length left) (CHR '' '') @ ''<'' @ left @ ''|=|'' @ right
                   @ ''>'' @ replicate (27 - length right) (CHR '' '') @ [CHR 0x0A])"
    using format_pos_windows [of 2 "[CHR ''a'', CHR 0x0A, CHR ''b'']" True "\<lambda>n. True"]
    by simp
  then show ?thesis using l r by auto
qed

section \<open>Properties of pathjoin\<close>


lemma c_str_c_str_append: "c_str (c_str p @ t) = c_str p @ c_str t"
proof -
  have "\<And>x. x \<in> set (c_str p) \<Longrightarrow> x \<noteq> NUL" using NUL_notin_c_str [of p] by auto
  then show ?thesis unfolding c_str_def [of "c_str p @ t"] c_str_def [of t]
    by (rule takeWhile_append2)
qed

lemma at_last_c_str:
  assumes "strlen p \<noteq> 0"
  shows "at p (strlen p - 1) = last (c_str p)"
proof -
  have ne: "c_str p \<noteq> []" using assms by (simp add: strlen_def)
  have lt: "strlen p - 1 < length (c_str p)" using assms by (simp add: strlen_def)
  then have "c_str p ! (strlen p - 1) = p ! (strlen p - 1)"
    unfolding c_str_def by (rule takeWhile_nth)
  moreover have "strlen p - 1 < length p" using lt strlen_le [of p] by (simp add: strlen_def)
  ultimately show ?thesis using ne by (simp add: at_def last_conv_nth strlen_def)
qed

lemma pathjoin_append:
  assumes "\<And>n. avail n"
  shows "pathjoin avail (Some p) (Some s # segs) =
         pathjoin avail
           (Some (c_str p @ (if c_str p = [] \<or> last (c_str p) \<noteq> SEP then ''/'' else [])
                  @ c_str (if at s 0 = SEP then drop 1 s else s))) segs"
proof (cases "strlen p = 0")
  case True
  then have e: "c_str p = []" by (simp add: strlen_def)
  have "c_str (strcat p ''/'') = ''/''"
    by (simp add: strcat_def e) (simp add: c_str_def NUL_def)
  then show ?thesis using assms True e by (simp add: Let_def strcat_def)
next
  case False
  then have ne: "c_str p \<noteq> []" by (simp add: strlen_def)
  have l: "at p (strlen p - 1) = last (c_str p)" using False by (rule at_last_c_str)
  have "c_str (strcat p ''/'') = c_str p @ ''/''"
    by (simp add: strcat_def c_str_c_str_append) (simp add: c_str_def NUL_def)
  then show ?thesis using assms False ne l by (simp add: Let_def strcat_def)
qed


text \<open>
  Claim C7. A NULL segment is joined as the segment () is. A segment appended to an
  accumulator that is not null loses one leading separator, and a separator is put
  before it only when the accumulator is empty or does not end in one. So, starting
  from a null accumulator, the segments a, b, c are joined to a/b/c and the segments
  a/ and /b to a/b, without a doubled separator, and a and NULL give a/(). This holds
  whenever the allocator grants the requests.
\<close>

theorem pathjoin_examples:
  assumes "\<And>n. avail n"
  shows "pathjoin avail path (None # segs) = pathjoin avail path (Some ''()'' # segs)
       \<and> pathjoin avail (Some p) (Some s # segs) =
           pathjoin avail
             (Some (c_str p @ (if c_str p = [] \<or> last (c_str p) \<noteq> SEP then ''/'' else [])
                    @ c_str (if at s 0 = SEP then drop 1 s else s))) segs
       \<and> pathjoin avail None [Some ''a'', Some ''b'', Some ''c''] = (0, Some ''a/b/c'')
       \<and> pathjoin avail None [Some ''a/'', Some ''/b''] = (0, Some ''a/b'')
       \<and> pathjoin avail None [Some ''a'', None] = (0, Some ''a/()'')"
proof -
  have nul: "pathjoin avail path (None # segs) = pathjoin avail path (Some ''()'' # segs)"
    by simp
  have ex: "pathjoin avail None [Some ''a'', Some ''b'', Some ''c''] = (0, Some ''a/b/c'')
       \<and> pathjoin avail None [Some ''a/'', Some ''/b''] = (0, Some ''a/b'')
       \<and> pathjoin avail None [Some ''a'', None] = (0, Some ''a/()'')"
    using assms
    by (simp add: strlen_def c_str_def strcat_def at_def NUL_def SEP_def)
  have "pathjoin avail (Some p) (Some s # segs) =
           pathjoin avail
             (Some (c_str p @ (if c_str p = [] \<or> last (c_str p) \<noteq> SEP then ''/'' else [])
                    @ c_str (if at s 0 = SEP then drop 1 s else s))) segs"
    by (rule pathjoin_append) (rule assms)
  then show ?thesis using nul ex by blast
qed

theorem pathjoin_examples_witness:
  "pathjoin (\<lambda>n. True) None [Some ''a'', Some ''b'', Some ''c''] = (0, Some ''a/b/c'')
   \<and> pathjoin (\<lambda>n. True) None [Some ''a/'', Some ''/b''] = (0, Some ''a/b'')
   \<and> pathjoin (\<lambda>n. True) None [Some ''a'', None] = (0, Some ''a/()'')"
  using pathjoin_examples [of "\<lambda>n. True"] by simp

text \<open>
  Claim C10. With a null accumulator the first segment is copied as it is: a leading
  separator is stripped only from a segment appended to an accumulator that is not
  null. So the segments /a and b, joined from a null accumulator, give /a/b.
\<close>

theorem pathjoin_first_segment_verbatim:
  assumes "\<And>n. avail n"
  shows "pathjoin avail None (Some s # segs) = pathjoin avail (Some (c_str s)) segs
       \<and> pathjoin avail None [Some ''/a'', Some ''b''] = (0, Some ''/a/b'')"
  using assms
  by (simp add: strlen_def c_str_def strcat_def at_def NUL_def SEP_def)

theorem pathjoin_first_segment_verbatim_witness:
  "pathjoin (\<lambda>n. True) None [Some ''/a'', Some ''b''] = (0, Some ''/a/b'')
   \<and> pathjoin (\<lambda>n. True) None [Some ''/a''] = (0, Some ''/a'')"
  using pathjoin_first_segment_verbatim [of "\<lambda>n. True" "''/a''" "[]"]
  by (simp add: c_str_def NUL_def)

end
